theory Spec2Isabelle
  imports Complex_Main "HOL-Library.Char_ord" "HOL-Library.List_Lexorder"
    "HOL-Library.Product_Lexorder" "HOL-Library.Log_Nat" "HOL-Library.Multiset"
begin

section \<open>Characters and the regular expression of \<^verbatim>\<open>parse_ingest_metrics.py\<close>\<close>

text \<open>
  Lines are modelled as lists of 8-bit characters (ASCII text). The two character
  classes of the pattern are \<^verbatim>\<open>\S\<close> and \<^verbatim>\<open>\d\<close>. On ASCII, Python's
  \<^verbatim>\<open>\s\<close> is the set of characters for which \<^verbatim>\<open>str.isspace\<close> holds:
  codes 9 to 13, 28 to 31 and 32.
\<close>

definition is_space :: "char \<Rightarrow> bool" where
  "is_space c = (let n = (of_char c :: nat) in (9 \<le> n \<and> n \<le> 13) \<or> (28 \<le> n \<and> n \<le> 32))"

definition is_digit :: "char \<Rightarrow> bool" where
  "is_digit c = (let n = (of_char c :: nat) in 48 \<le> n \<and> n \<le> 57)"

datatype cclass = NonSpace | Digit

fun in_class :: "cclass \<Rightarrow> char \<Rightarrow> bool" where
  "in_class NonSpace c = (\<not> is_space c)"
| "in_class Digit c = is_digit c"

text \<open>
  The constructs the pattern uses: literal text, a greedy \<^verbatim>\<open>+\<close> over a character
  class, a named group, concatenation and ordered alternation.
\<close>

datatype regex =
    Lit string
  | Plus cclass
  | Group string regex
  | Seq regex regex
  | Alt regex regex

type_synonym groups = "(string \<times> string) list"

text \<open>
  Backtracking matcher: \<open>rmatch r g inp\<close> lists, in the order in which Python's engine
  tries them, every way \<open>r\<close> can match a prefix of \<open>inp\<close>, each with the groups
  captured so far and the rest of the input. A greedy \<^verbatim>\<open>+\<close> tries the longest run
  first; an alternation tries its left branch first.
\<close>

fun rmatch :: "regex \<Rightarrow> groups \<Rightarrow> string \<Rightarrow> (groups \<times> string) list" where
  "rmatch (Lit s) g inp =
     (if take (length s) inp = s then [(g, drop (length s) inp)] else [])"
| "rmatch (Plus c) g inp =
     map (\<lambda>k. (g, drop k inp)) (rev [1 ..< Suc (length (takeWhile (in_class c) inp))])"
| "rmatch (Group n r) g inp =
     map (\<lambda>(g', rest). ((n, take (length inp - length rest) inp) # g', rest)) (rmatch r g inp)"
| "rmatch (Seq a b) g inp =
     concat (map (\<lambda>(g', rest). rmatch b g' rest) (rmatch a g inp))"
| "rmatch (Alt a b) g inp = rmatch a g inp @ rmatch b g inp"

text \<open>
  \<^verbatim>\<open>pattern.search(line)\<close>: the leftmost start position at which the pattern
  matches, and there the first match in the engine's order.
\<close>

fun search :: "regex \<Rightarrow> string \<Rightarrow> groups option" where
  "search r [] = (case rmatch r [] [] of [] \<Rightarrow> None | (g, _) # _ \<Rightarrow> Some g)"
| "search r (c # cs) =
     (case rmatch r [] (c # cs) of [] \<Rightarrow> search r cs | (g, _) # _ \<Rightarrow> Some g)"

definition timing :: "string \<Rightarrow> string \<Rightarrow> regex" where
  "timing field grp =
     Alt (Seq (Lit (field @ ''_ms='')) (Group (grp @ ''_ms'') (Plus Digit)))
         (Seq (Lit (field @ ''_us='')) (Group (grp @ ''_us'') (Plus Digit)))"

definition pattern :: regex where
  "pattern =
     Seq (Lit ''ingest_metrics table='') (Seq (Group ''table'' (Plus NonSpace))
    (Seq (Lit '' mode='') (Seq (Group ''mode'' (Plus NonSpace))
    (Seq (Lit '' op='') (Seq (Group ''op'' (Plus NonSpace))
    (Seq (Lit '' '') (Seq (timing ''parse'' ''parse'')
    (Seq (Lit '' '') (Seq (timing ''build'' ''build'')
    (Seq (Lit '' '') (Seq (timing ''send'' ''send'')
    (Seq (Lit '' '') (Seq (timing ''wait_lsn'' ''wait'')
    (Seq (Lit '' '') (timing ''total'' ''total'')))))))))))))))"

text \<open>\<^verbatim>\<open>m.groupdict()\<close> followed by \<^verbatim>\<open>d.get(key)\<close>: a group that did not take part is \<open>None\<close>.\<close>

definition dget :: "groups \<Rightarrow> string \<Rightarrow> string option" where
  "dget d k = map_of d k"

section \<open>Python numbers\<close>

datatype error = ValueError | OverflowError | FileAccessError | StatisticsError

text \<open>Sequencing of computations that may raise.\<close>

fun bind_err :: "error + 'a \<Rightarrow> ('a \<Rightarrow> error + 'b) \<Rightarrow> error + 'b" where
  "bind_err (Inl e) f = Inl e"
| "bind_err (Inr x) f = f x"

text \<open>
  The number that a string of decimal digits denotes (the only strings the pattern's
  \<^verbatim>\<open>\d+\<close> groups hold).
\<close>

definition digit_val :: "char \<Rightarrow> int" where
  "digit_val c = int (of_char c) - 48"

definition digits_value :: "string \<Rightarrow> int" where
  "digits_value s = foldl (\<lambda>a c. 10 * a + digit_val c) 0 s"

text \<open>
  \<^verbatim>\<open>int(s)\<close> on a string of digits. CPython (3.11 and later, and the patched releases
  of 3.7 to 3.10) refuses a string of more than 4300 digits, leading zeros counted, with
  \<^verbatim>\<open>ValueError\<close>.
\<close>

definition int_max_str_digits :: nat where
  "int_max_str_digits = 4300"

definition py_int :: "string \<Rightarrow> error + int" where
  "py_int s = (if int_max_str_digits < length s then Inl ValueError else Inr (digits_value s))"

text \<open>
  Python's \<^verbatim>\<open>float\<close> is IEEE binary64. A float is modelled by the rational it
  denotes, or infinity; every number of this program comes from a \<^verbatim>\<open>\d+\<close> capture, so
  negative values, minus infinity and NaN do not arise.
\<close>

datatype pyfloat = Finite rat | Infinity

definition round_half_even :: "rat \<Rightarrow> int" where
  "round_half_even q =
     (let f = \<lfloor>q\<rfloor>; r = q - of_int f
      in if r < 1 / 2 then f else if 1 / 2 < r then f + 1 else if even f then f else f + 1)"

text \<open>\<open>bin_exponent q\<close> is the \<open>e\<close> with \<open>2 powi e \<le> q < 2 powi (e + 1)\<close>, for \<open>0 < q\<close>.\<close>

definition bin_exponent :: "rat \<Rightarrow> int" where
  "bin_exponent q =
     (let (a, b) = quotient_of q;
          e0 = int (floorlog 2 (nat a)) - int (floorlog 2 (nat b))
      in if 2 powi e0 \<le> q then e0 else e0 - 1)"

text \<open>
  Round to nearest, ties to even, with a 53-bit significand and the exponent range of
  binary64 (subnormals below \<open>2 powi (-1022)\<close>, infinity from \<open>2 ^ 1024\<close> on).
\<close>

definition to_double :: "rat \<Rightarrow> pyfloat" where
  "to_double q =
     (if q = 0 then Finite 0
      else let e = max (bin_exponent \<bar>q\<bar> - 52) (- 1074);
               v = of_int (round_half_even (\<bar>q\<bar> / 2 powi e)) * 2 powi e
           in if 2 ^ 1024 \<le> v then Infinity else Finite (sgn q * v))"

text \<open>
  \<^verbatim>\<open>float(s)\<close> on a string of digits: correctly rounded, infinity when too large. The
  limit on the number of digits applies to \<^verbatim>\<open>int\<close> only.
\<close>

definition py_float :: "string \<Rightarrow> pyfloat" where
  "py_float s = to_double (of_int (digits_value s))"

text \<open>
  \<^verbatim>\<open>n / 1000.0\<close> for an \<^verbatim>\<open>int\<close> \<open>n\<close>: the integer is first converted to a float,
  which raises \<^verbatim>\<open>OverflowError\<close> when it is too large, then divided.
\<close>

definition int_truediv :: "int \<Rightarrow> rat \<Rightarrow> error + pyfloat" where
  "int_truediv n y =
     (case to_double (of_int n) of
        Infinity \<Rightarrow> Inl OverflowError
      | Finite x \<Rightarrow> Inr (to_double (x / y)))"

section \<open>\<^verbatim>\<open>parse_file\<close>\<close>

record row =
  table :: string
  mode :: string
  op :: string
  parse :: pyfloat
  build :: pyfloat
  send :: pyfloat
  wait :: pyfloat
  total :: pyfloat

text \<open>Truth value of \<^verbatim>\<open>d.get(key)\<close>: \<open>None\<close> and the empty string are false.\<close>

fun truthy :: "string option \<Rightarrow> bool" where
  "truthy None = False"
| "truthy (Some s) = (s \<noteq> [])"

text \<open>
  \<^verbatim>\<open>d[key]\<close> for a key of the group dictionary; \<^verbatim>\<open>pick_ms\<close> reads it only after
  \<^verbatim>\<open>d.get(key)\<close> was true.
\<close>

fun dval :: "string option \<Rightarrow> string" where
  "dval None = []"
| "dval (Some s) = s"

definition pick_ms :: "groups \<Rightarrow> string \<Rightarrow> string \<Rightarrow> error + pyfloat" where
  "pick_ms d ms_key us_key =
     (if truthy (dget d us_key)
      then bind_err (py_int (dval (dget d us_key))) (\<lambda>n. int_truediv n 1000)
      else if truthy (dget d ms_key) then Inr (py_float (dval (dget d ms_key)))
      else Inr (Finite 0))"

text \<open>The dictionary appended to \<open>rows\<close> for one match; its values are evaluated in order.\<close>

definition make_row :: "groups \<Rightarrow> error + row" where
  "make_row d =
     bind_err (pick_ms d ''parse_ms'' ''parse_us'') (\<lambda>p.
     bind_err (pick_ms d ''build_ms'' ''build_us'') (\<lambda>b.
     bind_err (pick_ms d ''send_ms'' ''send_us'') (\<lambda>s.
     bind_err (pick_ms d ''wait_ms'' ''wait_us'') (\<lambda>w.
     bind_err (pick_ms d ''total_ms'' ''total_us'') (\<lambda>t.
       Inr \<lparr>table = dval (dget d ''table''), mode = dval (dget d ''mode''),
            op = dval (dget d ''op''), parse = p, build = b, send = s, wait = w,
            total = t\<rparr>)))))"

text \<open>One iteration of the loop over the lines: no row when the pattern is not found.\<close>

definition parse_line :: "string \<Rightarrow> error + row option" where
  "parse_line line =
     (case search pattern line of
        None \<Rightarrow> Inr None
      | Some d \<Rightarrow> bind_err (make_row d) (\<lambda>r. Inr (Some r)))"

text \<open>The loop of \<^verbatim>\<open>parse_file\<close> over the lines of the opened file, \<open>rows\<close> being the accumulator.\<close>

fun parse_lines :: "row list \<Rightarrow> string list \<Rightarrow> error + row list" where
  "parse_lines rows [] = Inr rows"
| "parse_lines rows (line # ls) =
     (case parse_line line of
        Inl e \<Rightarrow> Inl e
      | Inr None \<Rightarrow> parse_lines rows ls
      | Inr (Some r) \<Rightarrow> parse_lines (rows @ [r]) ls)"

text \<open>
  A file system maps a path to the lines that iterating over the decoded file yields, or
  to \<open>None\<close> when the path cannot be opened.
\<close>

type_synonym filesystem = "string \<Rightarrow> string list option"

definition parse_file :: "filesystem \<Rightarrow> string \<Rightarrow> error + row list" where
  "parse_file fs path =
     (case fs path of None \<Rightarrow> Inl FileAccessError | Some ls \<Rightarrow> parse_lines [] ls)"

section \<open>\<^verbatim>\<open>summarize\<close>\<close>

type_synonym key = "string \<times> string \<times> string"

definition key_of :: "row \<Rightarrow> key" where
  "key_of r = (table r, mode r, op r)"

text \<open>
  \<^verbatim>\<open>by_key.setdefault(key, []).append(r)\<close> on a dictionary kept as an association list
  in insertion order.
\<close>

fun setdefault_append :: "(key \<times> row list) list \<Rightarrow> key \<Rightarrow> row \<Rightarrow> (key \<times> row list) list" where
  "setdefault_append [] k r = [(k, [r])]"
| "setdefault_append ((k', rs) # m) k r =
     (if k' = k then (k', rs @ [r]) # m else (k', rs) # setdefault_append m k r)"

definition by_key :: "row list \<Rightarrow> (key \<times> row list) list" where
  "by_key rows = foldl (\<lambda>m r. setdefault_append m (key_of r) r) [] rows"

text \<open>
  \<^verbatim>\<open>sorted(by_key.items())\<close>: the keys of a dictionary are distinct, so the comparison
  of two items is decided by their keys, tuples of three strings compared
  lexicographically, strings by character code.
\<close>

definition sorted_items :: "(key \<times> row list) list \<Rightarrow> (key \<times> row list) list" where
  "sorted_items m = sort_key fst m"

text \<open>\<^verbatim>\<open>statistics.mean\<close>: the exact mean of the data, rounded once to a float.\<close>

fun finite_vals :: "pyfloat list \<Rightarrow> rat list option" where
  "finite_vals [] = Some []"
| "finite_vals (Infinity # xs) = None"
| "finite_vals (Finite q # xs) = map_option ((#) q) (finite_vals xs)"

definition mean :: "pyfloat list \<Rightarrow> error + pyfloat" where
  "mean xs =
     (if xs = [] then Inl StatisticsError
      else case finite_vals xs of
             None \<Rightarrow> Inr Infinity
           | Some qs \<Rightarrow> Inr (to_double (sum_list qs / of_nat (length qs))))"

text \<open>\<^verbatim>\<open>str(n)\<close> for a natural number.\<close>

definition digit_char :: "nat \<Rightarrow> char" where
  "digit_char n = char_of (48 + n)"

function str_nat :: "nat \<Rightarrow> string" where
  "str_nat n = (if n < 10 then [digit_char n] else str_nat (n div 10) @ [digit_char (n mod 10)])"
  by pat_completeness auto
termination
  by (relation "measure id") auto

declare str_nat.simps [simp del]

text \<open>
  The format \<^verbatim>\<open>.1f\<close>: the decimal with one fractional digit nearest to the exact
  value of the float, ties to even.
\<close>

fun format_1f :: "pyfloat \<Rightarrow> string" where
  "format_1f Infinity = ''inf''"
| "format_1f (Finite q) =
     (let k = nat (round_half_even (\<bar>q\<bar> * 10))
      in (if q < 0 then ''-'' else []) @ str_nat (k div 10) @ ''.'' @ str_nat (k mod 10))"

definition tab :: string where
  "tab = [CHR 0x09]"

fun join_tab :: "string list \<Rightarrow> string" where
  "join_tab [] = []"
| "join_tab [x] = x"
| "join_tab (x # y # ys) = x @ tab @ join_tab (y # ys)"

text \<open>The body of the loop over the sorted items: the line printed for one group.\<close>

definition format_row :: "key \<times> row list \<Rightarrow> error + string" where
  "format_row ki =
     (case ki of ((k0, k1, k2), items) \<Rightarrow>
        bind_err (mean (map parse items)) (\<lambda>avg_parse.
        bind_err (mean (map build items)) (\<lambda>avg_build.
        bind_err (mean (map send items)) (\<lambda>avg_send.
        bind_err (mean (map wait items)) (\<lambda>avg_wait.
        bind_err (mean (map total items)) (\<lambda>avg_total.
          Inr (join_tab [k0, k1, k2, str_nat (length items), format_1f avg_parse,
                 format_1f avg_build, format_1f avg_send, format_1f avg_wait,
                 format_1f avg_total])))))))"

text \<open>
  Standard output is the list of the lines printed so far; a run ends normally or with an
  uncaught exception.
\<close>

fun print_rows :: "(key \<times> row list) list \<Rightarrow> string list \<times> error option" where
  "print_rows [] = ([], None)"
| "print_rows (ki # kis) =
     (case format_row ki of
        Inl e \<Rightarrow> ([], Some e)
      | Inr l \<Rightarrow> (case print_rows kis of (ls, e) \<Rightarrow> (l # ls, e)))"

definition header :: string where
  "header = join_tab [''table'', ''mode'', ''op'', ''count'', ''parse_ms'', ''build_ms'',
     ''send_ms'', ''wait_lsn_ms'', ''total_ms'']"

definition summarize :: "row list \<Rightarrow> string list \<times> error option" where
  "summarize rows =
     (if rows = [] then ([''No ingest_metrics lines found''], None)
      else case print_rows (sorted_items (by_key rows)) of
             (ls, e) \<Rightarrow> (''Averages by (table, mode, op):'' # header # ls, e))"

section \<open>The script\<close>

datatype outcome = Exit int | Uncaught error

text \<open>The exit status of the process: an uncaught exception ends it with status 1.\<close>

fun exit_code :: "outcome \<Rightarrow> int" where
  "exit_code (Exit n) = n"
| "exit_code (Uncaught e) = 1"

definition main :: "filesystem \<Rightarrow> string list \<Rightarrow> string list \<times> outcome" where
  "main fs argv =
     (if length argv < 2 then ([''Usage: parse_ingest_metrics.py <log_file>''], Exit 1)
      else case parse_file fs (argv ! 1) of
             Inl e \<Rightarrow> ([], Uncaught e)
           | Inr rows \<Rightarrow>
               (case summarize rows of
                  (out, None) \<Rightarrow> (out, Exit 0)
                | (out, Some e) \<Rightarrow> (out, Uncaught e)))"

section \<open>The script under any iteration order of the dictionary\<close>

text \<open>
  The one place where two runs of the interpreter on the same file could differ is the
  order in which \<^verbatim>\<open>by_key.items()\<close> hands out the items of the dictionary (insertion
  order in current Python, arbitrary and dependent on the hash seed in older versions).
  Here that order is a parameter: \<open>items_of m\<close> is the sequence of items that the runtime
  yields for the dictionary \<open>m\<close>.
\<close>

type_synonym items_order = "(key \<times> row list) list \<Rightarrow> (key \<times> row list) list"

definition summarize_ordered :: "items_order \<Rightarrow> row list \<Rightarrow> string list \<times> error option" where
  "summarize_ordered items_of rows =
     (if rows = [] then ([''No ingest_metrics lines found''], None)
      else case print_rows (sorted_items (items_of (by_key rows))) of
             (ls, e) \<Rightarrow> (''Averages by (table, mode, op):'' # header # ls, e))"

definition main_ordered :: "items_order \<Rightarrow> filesystem \<Rightarrow> string list \<Rightarrow> string list \<times> outcome" where
  "main_ordered items_of fs argv =
     (if length argv < 2 then ([''Usage: parse_ingest_metrics.py <log_file>''], Exit 1)
      else case parse_file fs (argv ! 1) of
             Inl e \<Rightarrow> ([], Uncaught e)
           | Inr rows \<Rightarrow>
               (case summarize_ordered items_of rows of
                  (out, None) \<Rightarrow> (out, Exit 0)
                | (out, Some e) \<Rightarrow> (out, Uncaught e)))"

section \<open>Sample inputs\<close>

text \<open>Lines without a complete record: free text, an empty line, a record cut before its total.\<close>

definition noise_lines :: "string list" where
  "noise_lines =
     [''2024-05-01 INFO starting ingestion'', [],
      ''ingest_metrics table=orders mode=batch op=insert parse_ms=1 build_ms=2 send_ms=3 wait_lsn_ms=4'']"

definition noise_fs :: filesystem where
  "noise_fs = (\<lambda>path. if path = ''noise.log'' then Some noise_lines else None)"

text \<open>A complete record whose \<^verbatim>\<open>parse_us\<close> value has 310 digits.\<close>

definition overflow_digits :: string where
  "overflow_digits = ''1000000000000000000000000000000000000000000000000000000000000000000000000000000000000000000000000000000000000000000000000000000000000000000000000000000000000000000000000000000000000000000000000000000000000000000000000000000000000000000000000000000000000000000000000000000000000000000000000000000000000000000000''"

definition overflow_line :: string where
  "overflow_line = ''ingest_metrics table=t mode=m op=o parse_us='' @ overflow_digits @
     '' build_ms=1 send_ms=1 wait_lsn_ms=1 total_ms=1''"

definition overflow_fs :: filesystem where
  "overflow_fs = (\<lambda>path. if path = ''overflow.log'' then Some [overflow_line] else None)"

text \<open>The same file in a file system where every other path is an empty file.\<close>

definition noise_fs' :: filesystem where
  "noise_fs' = (\<lambda>path. if path = ''noise.log'' then Some noise_lines else Some [])"

text \<open>
  A line raises in \<^verbatim>\<open>pick_ms\<close> when one of its captured microsecond strings cannot be
  converted: it has too many digits for \<^verbatim>\<open>int\<close>, or its value is too large for a
  float.
\<close>

definition us_keys :: "string list" where
  "us_keys = [''parse_us'', ''build_us'', ''send_us'', ''wait_us'', ''total_us'']"

definition unconvertible :: "string \<Rightarrow> bool" where
  "unconvertible s =
     (int_max_str_digits < length s \<or> to_double (of_int (digits_value s)) = Infinity)"

definition too_large :: "string \<Rightarrow> bool" where
  "too_large line =
     (case search pattern line of
        None \<Rightarrow> False
      | Some d \<Rightarrow> \<exists>k\<in>set us_keys. truthy (dget d k) \<and> unconvertible (dval (dget d k)))"

text \<open>The line of the mixed-unit scenario, behind a log prefix.\<close>

definition mixed_line :: string where
  "mixed_line = ''2024-05-01 12:00:00 INFO ingest_metrics table=orders mode=batch op=insert '' @
     ''parse_ms=10 build_us=5000 send_ms=2 wait_lsn_us=1000 total_ms=13''"

text \<open>A file with free text and the mixed-unit line.\<close>

definition mixed_fs :: filesystem where
  "mixed_fs = (\<lambda>path. if path = ''mixed.log''
     then Some [''2024-05-01 INFO starting ingestion'', mixed_line] else None)"


text \<open>
  A file with three records in two groups: \<open>(b, x, y)\<close> twice, with totals 10 and 20, and
  \<open>(a, x, y)\<close> once, between them.
\<close>

definition groups_lines :: "string list" where
  "groups_lines =
     [''ingest_metrics table=b mode=x op=y parse_ms=1 build_ms=2 send_ms=3 wait_lsn_ms=4 total_ms=10'',
      ''ingest_metrics table=a mode=x op=y parse_us=1500 build_ms=2 send_ms=3 wait_lsn_ms=4 total_ms=7'',
      ''ingest_metrics table=b mode=x op=y parse_ms=2 build_ms=2 send_ms=3 wait_lsn_ms=4 total_ms=20'']"

definition groups_fs :: filesystem where
  "groups_fs = (\<lambda>path. if path = ''groups.log'' then Some groups_lines else None)"

definition groups_fs' :: filesystem where
  "groups_fs' = (\<lambda>path. if path = ''groups.log'' then Some groups_lines else Some [])"


section \<open>The match format, declaratively\<close>

text \<open>
  What a regular expression matches, and with which captures (the most recent first):
  the declarative reading of the constructs, without any search order.
\<close>

fun denotes :: "regex \<Rightarrow> string \<Rightarrow> groups \<Rightarrow> bool" where
  "denotes (Lit s) w gs = (w = s \<and> gs = [])"
| "denotes (Plus c) w gs = (w \<noteq> [] \<and> list_all (in_class c) w \<and> gs = [])"
| "denotes (Group n r) w gs = (\<exists>gs'. gs = (n, w) # gs' \<and> denotes r w gs')"
| "denotes (Seq a b) w gs =
     (\<exists>u v ga gb. w = u @ v \<and> gs = gb @ ga \<and> denotes a u ga \<and> denotes b v gb)"
| "denotes (Alt a b) w gs = (denotes a w gs \<or> denotes b w gs)"

text \<open>
  The format in the words of the specification: the marker, then \<^verbatim>\<open>table=\<close>,
  \<^verbatim>\<open>mode=\<close> and \<^verbatim>\<open>op=\<close> with a token each, then for each of the five timing
  categories, in the fixed order, one key=value pair with the millisecond or the
  microsecond suffix and an integer value.
\<close>

definition token :: "string \<Rightarrow> bool" where
  "token t = (t \<noteq> [] \<and> list_all (\<lambda>c. \<not> is_space c) t)"

definition digits :: "string \<Rightarrow> bool" where
  "digits v = (v \<noteq> [] \<and> list_all is_digit v)"

definition timing_pair :: "string \<Rightarrow> string \<Rightarrow> bool" where
  "timing_pair field w =
     (\<exists>v. digits v \<and> (w = field @ ''_ms='' @ v \<or> w = field @ ''_us='' @ v))"

definition complete_record :: "string \<Rightarrow> bool" where
  "complete_record w =
     (\<exists>t m p f1 f2 f3 f4 f5.
        token t \<and> token m \<and> token p \<and> timing_pair ''parse'' f1 \<and> timing_pair ''build'' f2 \<and>
        timing_pair ''send'' f3 \<and> timing_pair ''wait_lsn'' f4 \<and> timing_pair ''total'' f5 \<and>
        w = ''ingest_metrics table='' @ t @ '' mode='' @ m @ '' op='' @ p @ '' '' @ f1 @ '' '' @
            f2 @ '' '' @ f3 @ '' '' @ f4 @ '' '' @ f5)"

definition has_complete_record :: "string \<Rightarrow> bool" where
  "has_complete_record line = (\<exists>pre w suf. line = pre @ w @ suf \<and> complete_record w)"

text \<open>
  The normalisation rule in the words of the specification: a captured microsecond value
  is divided by 1000.0, else a captured millisecond value is used as it is, else 0.0.
\<close>

fun float_div :: "pyfloat \<Rightarrow> rat \<Rightarrow> pyfloat" where
  "float_div (Finite x) y = to_double (x / y)"
| "float_div Infinity y = Infinity"

definition normalized :: "string option \<Rightarrow> string option \<Rightarrow> pyfloat" where
  "normalized us ms =
     (case us of
        Some u \<Rightarrow> float_div (to_double (of_int (digits_value u))) 1000
      | None \<Rightarrow> (case ms of Some m \<Rightarrow> py_float m | None \<Rightarrow> Finite 0))"

section \<open>The report, declaratively\<close>

text \<open>The mean of a non-empty group of floats, as \<^verbatim>\<open>statistics.mean\<close> returns it.\<close>

definition exact_mean :: "rat list \<Rightarrow> rat" where
  "exact_mean qs = sum_list qs / of_nat (length qs)"

definition mean_value :: "pyfloat list \<Rightarrow> pyfloat" where
  "mean_value xs =
     (case finite_vals xs of None \<Rightarrow> Infinity | Some qs \<Rightarrow> to_double (exact_mean qs))"

text \<open>
  The line of the report for one group: the three parts of the key, the number of records
  and the five means, separated by tabs.
\<close>

definition report_row :: "key \<times> row list \<Rightarrow> string" where
  "report_row ki =
     join_tab [fst (fst ki), fst (snd (fst ki)), snd (snd (fst ki)), str_nat (length (snd ki)),
       format_1f (mean_value (map parse (snd ki))), format_1f (mean_value (map build (snd ki))),
       format_1f (mean_value (map send (snd ki))), format_1f (mean_value (map wait (snd ki))),
       format_1f (mean_value (map total (snd ki)))]"

text \<open>A decimal numeral with exactly one digit after the point, and the number it denotes.\<close>

definition one_decimal :: "string \<Rightarrow> bool" where
  "one_decimal s = (\<exists>ip d. digits ip \<and> is_digit d \<and> s = ip @ ''.'' @ [d])"

definition read_decimal :: "string \<Rightarrow> rat" where
  "read_decimal s =
     (let ip = takeWhile (\<lambda>c. c \<noteq> CHR ''.'') s; fp = drop (Suc (length ip)) s
      in of_int (digits_value ip) + of_int (digits_value fp) / 10 ^ length fp)"

text \<open>
  The order of the rows in the words of the specification: tuples compared
  lexicographically, their strings compared character by character on the character
  codes, a proper prefix first.
\<close>

fun str_less :: "string \<Rightarrow> string \<Rightarrow> bool" where
  "str_less [] [] = False"
| "str_less [] (y # ys) = True"
| "str_less (x # xs) [] = False"
| "str_less (x # xs) (y # ys) =
     ((of_char x :: nat) < of_char y \<or> x = y \<and> str_less xs ys)"

fun key_less :: "key \<Rightarrow> key \<Rightarrow> bool" where
  "key_less (t, m, p) (t', m', p') =
     (str_less t t' \<or> t = t' \<and> (str_less m m' \<or> m = m' \<and> str_less p p'))"

text \<open>Timing values are never negative.\<close>

fun nonneg :: "pyfloat \<Rightarrow> bool" where
  "nonneg (Finite q) = (0 \<le> q)"
| "nonneg Infinity = True"

definition nonneg_row :: "row \<Rightarrow> bool" where
  "nonneg_row r = (nonneg (parse r) \<and> nonneg (build r) \<and> nonneg (send r) \<and> nonneg (wait r) \<and>
     nonneg (total r))"

text \<open>A complete record whose \<^verbatim>\<open>parse_ms\<close> value has 310 digits.\<close>

definition inf_line :: string where
  "inf_line = ''ingest_metrics table=t mode=m op=o parse_ms='' @ overflow_digits @
     '' build_ms=1 send_ms=1 wait_lsn_ms=1 total_ms=1''"

definition inf_fs :: filesystem where
  "inf_fs = (\<lambda>path. if path = ''inf.log'' then Some [inf_line] else None)"

text \<open>The fields of a printed line, and the key that a line of the report shows.\<close>

fun split_tab :: "string \<Rightarrow> string list" where
  "split_tab [] = [[]]"
| "split_tab (c # cs) =
     (if c = CHR 0x09 then [] # split_tab cs
      else (case split_tab cs of [] \<Rightarrow> [[c]] | f # fs \<Rightarrow> (c # f) # fs))"

definition row_key :: "string \<Rightarrow> key" where
  "row_key l = (case split_tab l of t # m # p # rest \<Rightarrow> (t, m, p) | _ \<Rightarrow> ([], [], []))"

text \<open>
  A line of the report is well formed when it has nine fields: three tokens, an integer,
  and five numbers with one decimal digit each (or \<^verbatim>\<open>inf\<close>).
\<close>

definition well_formed_row :: "string \<Rightarrow> bool" where
  "well_formed_row l =
     (case split_tab l of
        [t, m, p, c, v1, v2, v3, v4, v5] \<Rightarrow>
          token t \<and> token m \<and> token p \<and> digits c \<and>
          list_all (\<lambda>v. one_decimal v \<or> v = ''inf'') [v1, v2, v3, v4, v5]
      | _ \<Rightarrow> False)"

text \<open>
  A printed mean \<open>s\<close> of the field \<open>f\<close> over the records \<open>items\<close> of a group: the sum
  of the values divided by the number of records, rounded to a float (within half a unit
  in the last place) and then to one decimal digit (within a twentieth); \<^verbatim>\<open>inf\<close> when
  a value is infinite.
\<close>

definition mean_reported :: "(row \<Rightarrow> pyfloat) \<Rightarrow> row list \<Rightarrow> string \<Rightarrow> bool" where
  "mean_reported f items s =
     (case finite_vals (map f items) of
        None \<Rightarrow> s = ''inf''
      | Some qs \<Rightarrow>
          (case to_double (sum_list qs / of_nat (length items)) of
             Infinity \<Rightarrow> s = ''inf''
           | Finite m \<Rightarrow>
               \<bar>m - sum_list qs / of_nat (length items)\<bar>
                 \<le> (sum_list qs / of_nat (length items)) / 2 ^ 53 + 1 / 2 ^ 1075 \<and>
               s = format_1f (Finite m) \<and> \<bar>read_decimal s - m\<bar> \<le> 1 / 20))"

text \<open>The rows of the sample file with two groups, and of the file with an infinite value.\<close>

definition row_b1 :: row where
  "row_b1 = \<lparr>table = ''b'', mode = ''x'', op = ''y'', parse = Finite 1, build = Finite 2,
     send = Finite 3, wait = Finite 4, total = Finite 10\<rparr>"

definition row_a :: row where
  "row_a = \<lparr>table = ''a'', mode = ''x'', op = ''y'', parse = Finite (3 / 2), build = Finite 2,
     send = Finite 3, wait = Finite 4, total = Finite 7\<rparr>"

definition row_b2 :: row where
  "row_b2 = \<lparr>table = ''b'', mode = ''x'', op = ''y'', parse = Finite 2, build = Finite 2,
     send = Finite 3, wait = Finite 4, total = Finite 20\<rparr>"

definition row_inf :: row where
  "row_inf = \<lparr>table = ''t'', mode = ''m'', op = ''o'', parse = Infinity, build = Finite 1,
     send = Finite 1, wait = Finite 1, total = Finite 1\<rparr>"

section \<open>Facts about the float model\<close>

lemma round_half_even_frac:
  assumes "0 < b"
  shows "round_half_even (of_int a / of_int b) =
    (let f = a div b; r = a mod b
     in if 2 * r < b then f else if b < 2 * r then f + 1 else if even f then f else f + 1)"
proof -
  have b: "(0::rat) < of_int b"
    using assms by simp
  have f: "\<lfloor>(of_int a / of_int b :: rat)\<rfloor> = a div b"
    by (rule floor_divide_of_int_eq)
  have "(of_int a :: rat) = of_int (a div b) * of_int b + of_int (a mod b)"
    by (simp flip: of_int_mult of_int_add)
  then have r: "(of_int a / of_int b :: rat) - of_int (a div b) = of_int (a mod b) / of_int b"
    using b by (simp add: field_simps)
  have "(of_int (a mod b) / of_int b :: rat) < 1 / 2 \<longleftrightarrow> (of_int (2 * (a mod b)) :: rat) < of_int b"
    using b by (simp add: field_simps)
  then have lt: "(of_int (a mod b) / of_int b :: rat) < 1 / 2 \<longleftrightarrow> 2 * (a mod b) < b"
    by (simp only: of_int_less_iff)
  have "(1 / 2 :: rat) < of_int (a mod b) / of_int b \<longleftrightarrow> (of_int b :: rat) < of_int (2 * (a mod b))"
    using b by (simp add: field_simps)
  then have gt: "(1 / 2 :: rat) < of_int (a mod b) / of_int b \<longleftrightarrow> b < 2 * (a mod b)"
    by (simp only: of_int_less_iff)
  show ?thesis
    unfolding round_half_even_def Let_def f r lt gt by simp
qed

lemma round_half_even_close: "\<bar>of_int (round_half_even q) - q\<bar> \<le> 1 / 2"
proof -
  have "of_int \<lfloor>q\<rfloor> \<le> q" "q < of_int \<lfloor>q\<rfloor> + 1"
    by linarith+
  then show ?thesis
    unfolding round_half_even_def Let_def by (auto simp: abs_le_iff)
qed

lemma frac_log_bounds:
  fixes a b :: int
  assumes a: "0 < a" and b: "0 < b"
  defines "e0 \<equiv> int (floorlog 2 (nat a)) - int (floorlog 2 (nat b))"
  shows "(2::rat) powi (e0 - 1) \<le> of_int a / of_int b"
    and "(of_int a / of_int b :: rat) < 2 powi (e0 + 1)"
proof -
  define la lb where "la = floorlog 2 (nat a)" and "lb = floorlog 2 (nat b)"
  have A: "2 ^ (la - 1) \<le> nat a" "nat a < 2 ^ la"
    using floorlog_bounds [of "nat a" 2] a by (simp_all add: la_def)
  have B: "2 ^ (lb - 1) \<le> nat b" "nat b < 2 ^ lb"
    using floorlog_bounds [of "nat b" 2] b by (simp_all add: lb_def)
  have la: "0 < la" and lb: "0 < lb"
    using a b by (simp_all add: la_def lb_def floorlog_def)
  have "(of_nat (2 ^ (la - 1)) :: rat) \<le> of_nat (nat a)" "(of_nat (nat a) :: rat) < of_nat (2 ^ la)"
    using A by (simp_all only: of_nat_le_iff of_nat_less_iff)
  then have ra: "(2::rat) ^ (la - 1) \<le> of_int a" "(of_int a :: rat) < 2 ^ la"
    using a by simp_all
  have "(of_nat (2 ^ (lb - 1)) :: rat) \<le> of_nat (nat b)" "(of_nat (nat b) :: rat) < of_nat (2 ^ lb)"
    using B by (simp_all only: of_nat_le_iff of_nat_less_iff)
  then have rb: "(2::rat) ^ (lb - 1) \<le> of_int b" "(of_int b :: rat) < 2 ^ lb"
    using b by simp_all
  have E1: "int la - int lb + 1 = int la - int (lb - 1)"
    using lb by linarith
  have "(2::rat) powi (int la - int (lb - 1)) = 2 powi int la / 2 powi int (lb - 1)"
    by (rule power_int_diff) simp
  then have e1: "(2::rat) powi (int la - int lb + 1) = 2 ^ la / 2 ^ (lb - 1)"
    unfolding E1 [symmetric] power_int_of_nat .
  have E2: "int la - int lb - 1 = int (la - 1) - int lb"
    using la by linarith
  have "(2::rat) powi (int (la - 1) - int lb) = 2 powi int (la - 1) / 2 powi int lb"
    by (rule power_int_diff) simp
  then have e2: "(2::rat) powi (int la - int lb - 1) = 2 ^ (la - 1) / 2 ^ lb"
    unfolding E2 [symmetric] power_int_of_nat .
  show "(of_int a / of_int b :: rat) < 2 powi (e0 + 1)"
    unfolding e0_def la_def [symmetric] lb_def [symmetric] e1
    using ra rb a by (intro frac_less) simp_all
  show "(2::rat) powi (e0 - 1) \<le> of_int a / of_int b"
    unfolding e0_def la_def [symmetric] lb_def [symmetric] e2
    using ra rb a b by (intro frac_le) simp_all
qed

lemma bin_exponent_bounds:
  assumes "0 < q"
  shows "2 powi (bin_exponent q) \<le> q \<and> q < 2 powi (bin_exponent q + 1)"
proof -
  obtain a b where ab: "quotient_of q = (a, b)"
    by (cases "quotient_of q")
  have b: "0 < b" using ab by (rule quotient_of_denom_pos)
  have q: "q = of_int a / of_int b" using ab by (rule quotient_of_div)
  have a: "0 < a" using assms b unfolding q by (simp add: zero_less_divide_iff)
  define e0 where "e0 = int (floorlog 2 (nat a)) - int (floorlog 2 (nat b))"
  have be: "bin_exponent q = (if 2 powi e0 \<le> q then e0 else e0 - 1)"
    by (simp add: bin_exponent_def ab e0_def)
  have "2 powi (e0 - 1) \<le> q" "q < 2 powi (e0 + 1)"
    using frac_log_bounds [OF a b] unfolding q e0_def by simp_all
  then show ?thesis
    unfolding be by (auto simp: not_le)
qed

lemma bin_exponent_unique:
  assumes "0 < q" "2 powi e \<le> q" "q < 2 powi (e + 1)"
  shows "bin_exponent q = e"
proof -
  let ?b = "bin_exponent q"
  have B: "2 powi ?b \<le> q" "q < 2 powi (?b + 1)"
    using bin_exponent_bounds [OF assms(1)] by simp_all
  have "(2::rat) powi e < 2 powi (?b + 1)" "(2::rat) powi ?b < 2 powi (e + 1)"
    using assms B by linarith+
  then have lt: "(2::rat) powi e < 2 powi (?b + 1)" "(2::rat) powi ?b < 2 powi (e + 1)"
    by simp_all
  have mono: "i < j" if "(2::rat) powi i < 2 powi j" for i j :: int
  proof (rule ccontr)
    assume "\<not> i < j"
    then have "(2::rat) powi j \<le> 2 powi i"
      by (intro power_int_increasing) simp_all
    with that show False by simp
  qed
  have "e < ?b + 1" "?b < e + 1"
    using lt by (simp_all only: mono)
  then show ?thesis by simp
qed


lemma bin_exponent_frac:
  assumes a: "0 < a" and b: "0 < b"
  shows "bin_exponent (of_int a / of_int b) =
    (let e0 = int (floorlog 2 (nat a)) - int (floorlog 2 (nat b))
     in if 2 powi e0 \<le> (of_int a / of_int b :: rat) then e0 else e0 - 1)"
proof -
  have q: "(0::rat) < of_int a / of_int b"
    using a b by simp
  show ?thesis
    unfolding Let_def using frac_log_bounds [OF a b]
    by (auto intro!: bin_exponent_unique [OF q] simp: not_le)
qed

lemma round_half_even_numeral:
  "round_half_even 0 = 0"
  "round_half_even 1 = 1"
  "round_half_even (numeral m) = numeral m"
  "round_half_even (numeral m / numeral n) =
     (let f = numeral m div numeral n; r = numeral m mod numeral n :: int
      in if 2 * r < numeral n then f
         else if numeral n < 2 * r then f + 1 else if even f then f else f + 1)"
  "round_half_even (1 / numeral n) =
     (let f = 1 div numeral n; r = 1 mod numeral n :: int
      in if 2 * r < numeral n then f
         else if numeral n < 2 * r then f + 1 else if even f then f else f + 1)"
  using round_half_even_frac [of "numeral n" "numeral m"] round_half_even_frac [of "numeral n" 1]
  by (simp_all add: round_half_even_def)

lemma floorlog_one: "floorlog 2 (Suc 0) = 1"
  by (subst compute_floorlog) (simp add: floorlog_eq_zero_iff)

lemma bin_exponent_numeral:
  "bin_exponent 1 = 0"
  "bin_exponent (numeral m) =
     (let e0 = int (floorlog 2 (numeral m)) - 1
      in if 2 powi e0 \<le> (numeral m :: rat) then e0 else e0 - 1)"
  "bin_exponent (numeral m / numeral n) =
     (let e0 = int (floorlog 2 (numeral m)) - int (floorlog 2 (numeral n))
      in if 2 powi e0 \<le> (numeral m / numeral n :: rat) then e0 else e0 - 1)"
  "bin_exponent (1 / numeral n) =
     (let e0 = 1 - int (floorlog 2 (numeral n))
      in if 2 powi e0 \<le> (1 / numeral n :: rat) then e0 else e0 - 1)"
  using bin_exponent_frac [of 1 1] bin_exponent_frac [of "numeral m" 1]
    bin_exponent_frac [of "numeral m" "numeral n"] bin_exponent_frac [of 1 "numeral n"]
  by (simp_all add: floorlog_one)

lemma pow2_eval: "(2::rat) powi e = (if 0 \<le> e then 2 ^ nat e else 1 / 2 ^ nat (- e))"
  by (simp add: power_int_def power_one_over inverse_eq_divide)

lemmas float_eval = to_double_def Let_def bin_exponent_numeral round_half_even_numeral
  pow2_eval compute_floorlog int_truediv_def

section \<open>Facts about the matcher\<close>

lemma rmatch_Seq_Lit:
  "rmatch (Seq (Lit s) r) g inp =
     (if take (length s) inp = s then rmatch r g (drop (length s) inp) else [])"
  by simp

lemma concat_map_concat:
  "concat (map f (concat xss)) = concat (map (\<lambda>xs. concat (map f xs)) xss)"
  by (induction xss) simp_all

lemma rmatch_Seq_assoc: "rmatch (Seq (Seq a b) c) g inp = rmatch (Seq a (Seq b c)) g inp"
  by (simp add: concat_map_concat split_def comp_def)

lemma rmatch_Seq_Alt:
  "rmatch (Seq (Alt a b) c) g inp = rmatch (Seq a c) g inp @ rmatch (Seq b c) g inp"
  by simp

lemma rmatch_Group_Plus:
  "rmatch (Group n (Plus c)) g inp =
     map (\<lambda>k. ((n, take k inp) # g, drop k inp))
       (rev [1 ..< Suc (length (takeWhile (in_class c) inp))])"
proof -
  have "length (takeWhile (in_class c) inp) \<le> length inp"
    by (rule length_takeWhile_le)
  then show ?thesis
    by (auto simp: min_def)
qed

lemma Lit_fails_inside_run:
  assumes "\<not> in_class c x" and "k < length (takeWhile (in_class c) inp)"
  shows "rmatch (Seq (Lit (x # s)) r) g (drop k inp) = []"
proof -
  have k: "k < length inp"
    using assms(2) length_takeWhile_le [of "in_class c" inp] by simp
  have "in_class c (inp ! k)"
    using assms(2) by (metis nth_mem set_takeWhileD takeWhile_nth)
  then have "inp ! k \<noteq> x"
    using assms(1) by auto
  moreover have "drop k inp = inp ! k # drop (Suc k) inp"
    using k by (simp add: Cons_nth_drop_Suc)
  ultimately show ?thesis
    by simp
qed

lemma rmatch_Plus_then_Lit:
  assumes "\<not> in_class c x"
  shows "rmatch (Seq (Group n (Plus c)) (Seq (Lit (x # s)) r)) g inp =
     (if takeWhile (in_class c) inp = [] then []
      else rmatch (Seq (Lit (x # s)) r) ((n, takeWhile (in_class c) inp) # g)
             (dropWhile (in_class c) inp))"
proof -
  define N where "N = length (takeWhile (in_class c) inp)"
  define F where "F = (\<lambda>k. rmatch (Seq (Lit (x # s)) r) ((n, take k inp) # g) (drop k inp))"
  have lhs: "rmatch (Seq (Group n (Plus c)) (Seq (Lit (x # s)) r)) g inp =
      concat (map F (rev [1 ..< Suc N]))"
    unfolding rmatch.simps(4) [of "Group n (Plus c)"] rmatch_Group_Plus N_def F_def
    by (simp add: comp_def)
  have short: "F k = []" if "k < N" for k
    unfolding F_def using Lit_fails_inside_run [OF assms] that by (simp add: N_def)
  have tail: "concat (map F (rev [1 ..< N])) = []"
    using short by (simp add: concat_eq_Nil_conv)
  show ?thesis
  proof (cases "N = 0")
    case True
    then show ?thesis
      unfolding lhs by (simp add: N_def)
  next
    case False
    then have "[1 ..< Suc N] = [1 ..< N] @ [N]"
      by (intro upt_Suc_append) simp
    then have "rev [1 ..< Suc N] = N # rev [1 ..< N]"
      by (simp only: rev_append rev.simps append.simps)
    then have "concat (map F (rev [1 ..< Suc N])) = F N"
      using tail by simp
    moreover have "take N inp = takeWhile (in_class c) inp" "drop N inp = dropWhile (in_class c) inp"
      unfolding N_def by (rule takeWhile_eq_take [symmetric], rule dropWhile_eq_drop [symmetric])
    ultimately show ?thesis
      unfolding lhs using False by (simp add: F_def N_def)
  qed
qed

lemma rmatch_Group_Plus_first:
  "(case rmatch (Group n (Plus c)) g inp of [] \<Rightarrow> None | (g', rest) # xs \<Rightarrow> Some g') =
     (if takeWhile (in_class c) inp = [] then None
      else Some ((n, takeWhile (in_class c) inp) # g))"
proof -
  define N where "N = length (takeWhile (in_class c) inp)"
  show ?thesis
  proof (cases "N = 0")
    case True
    then show ?thesis
      unfolding rmatch_Group_Plus by (simp add: N_def)
  next
    case False
    then have "[1 ..< Suc N] = [1 ..< N] @ [N]"
      by (intro upt_Suc_append) simp
    then have "rev [1 ..< Suc N] = N # rev [1 ..< N]"
      by (simp only: rev_append rev.simps append.simps)
    moreover have "take N inp = takeWhile (in_class c) inp"
      unfolding N_def by (rule takeWhile_eq_take [symmetric])
    ultimately show ?thesis
      unfolding rmatch_Group_Plus N_def [symmetric] using False by (simp add: N_def)
  qed
qed


lemmas regex_eval = pattern_def timing_def is_space_def is_digit_def rmatch_Seq_Lit rmatch_Seq_Alt
  rmatch_Seq_assoc rmatch_Plus_then_Lit

section \<open>The matcher against the declarative reading\<close>

lemma take_within_run:
  assumes "k \<le> length (takeWhile P xs)"
  shows "list_all P (take k xs)"
proof -
  have "take k xs = take k (takeWhile P xs)"
    using assms by (metis takeWhile_eq_take min.absorb1 take_take)
  then show ?thesis
    by (metis in_set_takeD list_all_iff set_takeWhileD)
qed

lemma rmatch_sound:
  assumes "(g', rest) \<in> set (rmatch r g inp)"
  shows "\<exists>w gs. inp = w @ rest \<and> g' = gs @ g \<and> denotes r w gs"
  using assms
proof (induction r arbitrary: g inp g' rest)
  case (Lit s)
  then have "take (length s) inp = s" and "rest = drop (length s) inp" and "g' = g"
    by (auto split: if_splits)
  then have "inp = s @ rest"
    by (metis append_take_drop_id)
  then show ?case
    using \<open>g' = g\<close> by simp
next
  case (Plus c)
  then obtain k where k: "1 \<le> k" "k \<le> length (takeWhile (in_class c) inp)"
    and r: "rest = drop k inp" "g' = g"
    by auto
  have "k \<le> length inp"
    using k(2) length_takeWhile_le [of "in_class c" inp] by simp
  then have "take k inp \<noteq> []"
    using k(1) by auto
  moreover have "list_all (in_class c) (take k inp)"
    using k(2) by (rule take_within_run)
  ultimately show ?case
    using r by (intro exI [of _ "take k inp"] exI [of _ "[]"]) simp
next
  case (Group n r)
  then obtain g0 where g0: "(g0, rest) \<in> set (rmatch r g inp)"
    and g': "g' = (n, take (length inp - length rest) inp) # g0"
    by auto
  from Group.IH [OF g0] obtain w gs where w: "inp = w @ rest" "g0 = gs @ g" "denotes r w gs"
    by blast
  then have "take (length inp - length rest) inp = w"
    by simp
  then show ?case
    using w g' by (intro exI [of _ w] exI [of _ "(n, w) # gs"]) simp
next
  case (Seq a b)
  then obtain g1 r1 where a: "(g1, r1) \<in> set (rmatch a g inp)"
    and b: "(g', rest) \<in> set (rmatch b g1 r1)"
    by auto
  from Seq.IH(1) [OF a] obtain u ga where u: "inp = u @ r1" "g1 = ga @ g" "denotes a u ga"
    by blast
  from Seq.IH(2) [OF b] obtain v gb where v: "r1 = v @ rest" "g' = gb @ g1" "denotes b v gb"
    by blast
  show ?case
    using u v by (intro exI [of _ "u @ v"] exI [of _ "gb @ ga"]) auto
next
  case (Alt a b)
  then show ?case
    by (auto dest: Alt.IH)
qed

lemma rmatch_complete:
  assumes "denotes r w gs"
  shows "(gs @ g, rest) \<in> set (rmatch r g (w @ rest))"
  using assms
proof (induction r arbitrary: w gs g rest)
  case (Lit s)
  then show ?case by simp
next
  case (Plus c)
  then have w: "w \<noteq> []" "list_all (in_class c) w" "gs = []"
    by simp_all
  have "takeWhile (in_class c) (w @ rest) = w @ takeWhile (in_class c) rest"
    using w(2) by (simp add: list_all_iff)
  then have "length w \<le> length (takeWhile (in_class c) (w @ rest))"
    by simp
  moreover have "1 \<le> length w"
    using w(1) by (cases w) simp_all
  ultimately have mem: "length w \<in> set (rev [1 ..< Suc (length (takeWhile (in_class c) (w @ rest)))])"
    by (simp del: upt_Suc)
  have "(g, drop (length w) (w @ rest))
      \<in> set (map (\<lambda>k. (g, drop k (w @ rest)))
          (rev [1 ..< Suc (length (takeWhile (in_class c) (w @ rest)))]))"
    unfolding set_map by (rule image_eqI [where x = "length w"]) (simp, rule mem)
  then show ?case
    using w(3) by (simp del: upt_Suc)
next
  case (Group n r)
  then obtain gs' where gs: "gs = (n, w) # gs'" and d: "denotes r w gs'"
    by auto
  have "(gs' @ g, rest) \<in> set (rmatch r g (w @ rest))"
    using d by (rule Group.IH)
  then have "((n, take (length (w @ rest) - length rest) (w @ rest)) # gs' @ g, rest)
      \<in> set (rmatch (Group n r) g (w @ rest))"
    by force
  then show ?case
    using gs by simp
next
  case (Seq a b)
  then obtain u v ga gb where w: "w = u @ v" "gs = gb @ ga" "denotes a u ga" "denotes b v gb"
    by auto
  have a: "(ga @ g, v @ rest) \<in> set (rmatch a g (u @ v @ rest))"
    using w(3) by (rule Seq.IH(1))
  have b: "(gb @ ga @ g, rest) \<in> set (rmatch b (ga @ g) (v @ rest))"
    using w(4) by (rule Seq.IH(2))
  show ?case
    using a b w(1,2) by force
next
  case (Alt a b)
  then show ?case
    by (auto dest: Alt.IH)
qed

lemma search_Some:
  assumes "search r inp = Some d"
  shows "\<exists>pre rest x xs. inp = pre @ rest \<and> rmatch r [] rest = (d, x) # xs \<and>
    (\<forall>k<length pre. rmatch r [] (drop k inp) = [])"
  using assms
proof (induction inp)
  case Nil
  then show ?case
    by (auto split: list.splits)
next
  case (Cons c cs)
  show ?case
  proof (cases "rmatch r [] (c # cs)")
    case Nil
    with Cons.prems have "search r cs = Some d"
      by simp
    from Cons.IH [OF this] obtain pre rest x xs where
      p: "cs = pre @ rest" "rmatch r [] rest = (d, x) # xs"
        "\<forall>k<length pre. rmatch r [] (drop k cs) = []"
      by blast
    have "\<forall>k<length (c # pre). rmatch r [] (drop k (c # cs)) = []"
    proof (intro allI impI)
      fix k
      assume "k < length (c # pre)"
      then show "rmatch r [] (drop k (c # cs)) = []"
        using Nil p(3) by (cases k) simp_all
    qed
    then show ?thesis
      using p(1,2) by (intro exI [of _ "c # pre"] exI [of _ rest] exI [of _ x] exI [of _ xs]) simp
  next
    case (Cons y ys)
    with Cons.prems have "fst y = d"
      by (cases y) simp
    then show ?thesis
      using Cons by (intro exI [of _ "[]"] exI [of _ "c # cs"] exI [of _ "snd y"] exI [of _ ys]) (cases y, simp)
  qed
qed

lemma search_None:
  "search r inp = None \<longleftrightarrow> (\<forall>k\<le>length inp. rmatch r [] (drop k inp) = [])"
proof (induction inp)
  case Nil
  then show ?case
    by (auto split: list.splits)
next
  case (Cons c cs)
  have "(\<forall>k\<le>length (c # cs). rmatch r [] (drop k (c # cs)) = []) \<longleftrightarrow>
      rmatch r [] (c # cs) = [] \<and> (\<forall>k\<le>length cs. rmatch r [] (drop k cs) = [])"
    (is "?L \<longleftrightarrow> ?R")
  proof
    assume l: ?L
    have "rmatch r [] (drop 0 (c # cs)) = []"
      using l by blast
    moreover have "rmatch r [] (drop k cs) = []" if "k \<le> length cs" for k
      using l [rule_format, of "Suc k"] that by simp
    ultimately show ?R by simp
  next
    assume r: ?R
    show ?L
    proof (intro allI impI)
      fix k
      assume "k \<le> length (c # cs)"
      then show "rmatch r [] (drop k (c # cs)) = []"
        using r by (cases k) simp_all
    qed
  qed
  then show ?case
    using Cons.IH by (auto split: list.splits)
qed

section \<open>What the pattern matches\<close>

lemma in_class_NonSpace: "in_class NonSpace = (\<lambda>c. \<not> is_space c)"
  by (rule ext) simp

lemma in_class_Digit: "in_class Digit = is_digit"
  by (rule ext) simp

lemma denotes_token: "denotes (Group n (Plus NonSpace)) w gs \<longleftrightarrow> token w \<and> gs = [(n, w)]"
  by (auto simp: token_def in_class_NonSpace)

lemma denotes_timing:
  "denotes (timing f g) w gs \<longleftrightarrow>
     (\<exists>v. digits v \<and> (w = f @ ''_ms='' @ v \<and> gs = [(g @ ''_ms'', v)] \<or>
                       w = f @ ''_us='' @ v \<and> gs = [(g @ ''_us'', v)]))"
  by (auto simp: timing_def digits_def in_class_Digit)

lemma denotes_Seq_Lit:
  "denotes (Seq (Lit s) r) w gs \<longleftrightarrow> (\<exists>v. w = s @ v \<and> denotes r v gs)"
  by auto

lemma denotes_Seq_token:
  "denotes (Seq (Group n (Plus NonSpace)) r) w gs \<longleftrightarrow>
     (\<exists>t v gr. w = t @ v \<and> gs = gr @ [(n, t)] \<and> token t \<and> denotes r v gr)"
  unfolding denotes.simps(4) denotes_token by blast

lemma denotes_Seq_timing:
  "denotes (Seq (timing f g) r) w gs \<longleftrightarrow>
     (\<exists>u v ga gr. w = u @ v \<and> gs = gr @ ga \<and> denotes (timing f g) u ga \<and> denotes r v gr)"
  unfolding denotes.simps(4) by blast

lemma denotes_pattern_raw:
  "denotes pattern w d \<longleftrightarrow>
     (\<exists>t m p f1 g1 f2 g2 f3 g3 f4 g4 f5 g5.
        w = ''ingest_metrics table='' @ t @ '' mode='' @ m @ '' op='' @ p @ '' '' @ f1 @ '' '' @
            f2 @ '' '' @ f3 @ '' '' @ f4 @ '' '' @ f5 \<and>
        d = ((((((g5 @ g4) @ g3) @ g2) @ g1) @ [(''op'', p)]) @ [(''mode'', m)]) @ [(''table'', t)] \<and>
        token t \<and> token m \<and> token p \<and>
        denotes (timing ''parse'' ''parse'') f1 g1 \<and>
        denotes (timing ''build'' ''build'') f2 g2 \<and>
        denotes (timing ''send'' ''send'') f3 g3 \<and>
        denotes (timing ''wait_lsn'' ''wait'') f4 g4 \<and>
        denotes (timing ''total'' ''total'') f5 g5)"
  unfolding pattern_def denotes_Seq_Lit denotes_Seq_token denotes_Seq_timing
  apply (intro iffI; elim exE conjE)
  subgoal
    apply hypsubst
    apply (intro exI conjI)
    apply (rule refl)
    apply (rule refl)
    apply assumption+
    done
  subgoal
    apply hypsubst
    apply (intro exI conjI)
    apply (rule refl | assumption)+
    done
  done

section \<open>Facts about \<^verbatim>\<open>parse_file\<close> and \<^verbatim>\<open>summarize\<close>\<close>

lemma parse_lines_no_match:
  assumes "\<forall>l\<in>set ls. search pattern l = None"
  shows "parse_lines rows ls = Inr rows"
  using assms by (induction ls arbitrary: rows) (simp_all add: parse_line_def)

lemma setdefault_append_nonempty:
  assumes "\<forall>(k, items)\<in>set m. items \<noteq> []"
  shows "\<forall>(k, items)\<in>set (setdefault_append m k' r). items \<noteq> []"
  using assms by (induction m k' r rule: setdefault_append.induct) auto

lemma foldl_setdefault_nonempty:
  assumes "\<forall>(k, items)\<in>set m. items \<noteq> []"
  shows "\<forall>(k, items)\<in>set (foldl (\<lambda>m r. setdefault_append m (key_of r) r) m rows). items \<noteq> []"
  using assms
proof (induction rows arbitrary: m)
  case Nil
  then show ?case by simp
next
  case (Cons r rows)
  show ?case
    unfolding foldl_Cons
    by (rule Cons.IH) (rule setdefault_append_nonempty [OF Cons.prems])
qed

lemma by_key_nonempty: "\<forall>(k, items)\<in>set (by_key rows). items \<noteq> []"
  unfolding by_key_def by (rule foldl_setdefault_nonempty) simp

lemma mean_no_error: "xs \<noteq> [] \<Longrightarrow> \<exists>v. mean xs = Inr v"
  by (simp add: mean_def split: option.split)

lemma format_row_no_error:
  assumes "items \<noteq> []"
  shows "\<exists>l. format_row (k, items) = Inr l"
proof -
  obtain k0 k1 k2 where k: "k = (k0, k1, k2)"
    by (cases k) auto
  from assms obtain a b c d e where
    "mean (map parse items) = Inr a" "mean (map build items) = Inr b"
    "mean (map send items) = Inr c" "mean (map wait items) = Inr d"
    "mean (map total items) = Inr e"
    using mean_no_error [of "map parse items"] mean_no_error [of "map build items"]
      mean_no_error [of "map send items"] mean_no_error [of "map wait items"]
      mean_no_error [of "map total items"]
    by auto
  then show ?thesis
    by (simp add: format_row_def k)
qed

lemma print_rows_no_error:
  assumes "\<forall>(k, items)\<in>set kis. items \<noteq> []"
  shows "snd (print_rows kis) = None"
  using assms
proof (induction kis)
  case Nil
  then show ?case by simp
next
  case (Cons ki kis)
  obtain k items where ki: "ki = (k, items)" by (cases ki)
  with Cons.prems have "items \<noteq> []" by simp
  then obtain l where l: "format_row (k, items) = Inr l"
    using format_row_no_error by blast
  from Cons have "snd (print_rows kis) = None" by simp
  then show ?case
    by (auto simp: ki l split: prod.split)
qed

lemma summarize_no_error: "snd (summarize rows) = None"
proof (cases "rows = []")
  case True
  then show ?thesis by (simp add: summarize_def)
next
  case False
  have "\<forall>(k, items)\<in>set (sorted_items (by_key rows)). items \<noteq> []"
    using by_key_nonempty [of rows] by (simp add: sorted_items_def)
  then have "snd (print_rows (sorted_items (by_key rows))) = None"
    by (rule print_rows_no_error)
  then show ?thesis
    using False by (auto simp: summarize_def split: prod.split)
qed

lemma main_exit_code:
  assumes "2 \<le> length argv"
  shows "exit_code (snd (main fs argv)) = (case parse_file fs (argv ! 1) of Inl e \<Rightarrow> 1 | Inr rows \<Rightarrow> 0)"
proof (cases "parse_file fs (argv ! 1)")
  case (Inl e)
  then show ?thesis using assms by (simp add: main_def)
next
  case (Inr rows)
  obtain out e where s: "summarize rows = (out, e)" by (cases "summarize rows")
  with summarize_no_error [of rows] have "e = None" by simp
  then show ?thesis using assms Inr s by (simp add: main_def)
qed

section \<open>Facts about parsing\<close>

lemma bind_err_Inl: "bind_err x f = Inl e \<longleftrightarrow> x = Inl e \<or> (\<exists>v. x = Inr v \<and> f v = Inl e)"
  by (cases x) simp_all

lemma bind_err_Inr: "bind_err x f = Inr y \<longleftrightarrow> (\<exists>v. x = Inr v \<and> f v = Inr y)"
  by (cases x) simp_all

text \<open>The two ways in which the conversion of a microsecond capture raises.\<close>

lemma us_conversion_raises:
  "bind_err (py_int s) (\<lambda>n. int_truediv n 1000) = Inl e \<longleftrightarrow>
     (e = ValueError \<and> int_max_str_digits < length s) \<or>
     (e = OverflowError \<and> length s \<le> int_max_str_digits \<and>
        to_double (of_int (digits_value s)) = Infinity)"
  by (auto simp: py_int_def int_truediv_def split: pyfloat.splits)

lemma us_conversion_returns:
  "bind_err (py_int s) (\<lambda>n. int_truediv n 1000) = Inr x \<longleftrightarrow>
     \<not> unconvertible s \<and> x = float_div (to_double (of_int (digits_value s))) 1000"
  by (auto simp: py_int_def int_truediv_def unconvertible_def split: pyfloat.splits)

lemma pick_ms_result:
  "(\<exists>e. pick_ms d ms us = Inl e) \<and> truthy (dget d us) \<and> unconvertible (dval (dget d us))
   \<or> (\<exists>v. pick_ms d ms us = Inr v) \<and>
       \<not> (truthy (dget d us) \<and> unconvertible (dval (dget d us)))"
proof (cases "truthy (dget d us)")
  case True
  show ?thesis
  proof (cases "bind_err (py_int (dval (dget d us))) (\<lambda>n. int_truediv n 1000)")
    case (Inl e)
    then have "unconvertible (dval (dget d us))"
      unfolding us_conversion_raises unconvertible_def by auto
    then show ?thesis
      using True Inl by (simp add: pick_ms_def)
  next
    case (Inr x)
    then have "\<not> unconvertible (dval (dget d us))"
      unfolding us_conversion_returns by simp
    then show ?thesis
      using True Inr by (simp add: pick_ms_def)
  qed
next
  case False
  then show ?thesis
    by (simp add: pick_ms_def)
qed

lemma make_row_fields:
  assumes "make_row d = Inr r"
  shows "pick_ms d ''parse_ms'' ''parse_us'' = Inr (parse r)"
    and "pick_ms d ''build_ms'' ''build_us'' = Inr (build r)"
    and "pick_ms d ''send_ms'' ''send_us'' = Inr (send r)"
    and "pick_ms d ''wait_ms'' ''wait_us'' = Inr (wait r)"
    and "pick_ms d ''total_ms'' ''total_us'' = Inr (total r)"
    and "table r = dval (dget d ''table'')" and "mode r = dval (dget d ''mode'')"
    and "op r = dval (dget d ''op'')"
  using assms unfolding make_row_def bind_err_Inr by auto

lemma make_row_raises:
  "(\<exists>e. make_row d = Inl e) \<longleftrightarrow>
     (\<exists>k\<in>set us_keys. truthy (dget d k) \<and> unconvertible (dval (dget d k)))"
proof
  assume raises: "\<exists>e. make_row d = Inl e"
  show "\<exists>k\<in>set us_keys. truthy (dget d k) \<and> unconvertible (dval (dget d k))"
  proof (rule ccontr)
    assume "\<not> (\<exists>k\<in>set us_keys. truthy (dget d k) \<and> unconvertible (dval (dget d k)))"
    then have n: "\<not> (truthy (dget d ''parse_us'') \<and> unconvertible (dval (dget d ''parse_us'')))"
      "\<not> (truthy (dget d ''build_us'') \<and> unconvertible (dval (dget d ''build_us'')))"
      "\<not> (truthy (dget d ''send_us'') \<and> unconvertible (dval (dget d ''send_us'')))"
      "\<not> (truthy (dget d ''wait_us'') \<and> unconvertible (dval (dget d ''wait_us'')))"
      "\<not> (truthy (dget d ''total_us'') \<and> unconvertible (dval (dget d ''total_us'')))"
      by (simp_all add: us_keys_def)
    obtain p where p: "pick_ms d ''parse_ms'' ''parse_us'' = Inr p"
      using pick_ms_result [of d "''parse_ms''" "''parse_us''"] n(1) by blast
    obtain b where b: "pick_ms d ''build_ms'' ''build_us'' = Inr b"
      using pick_ms_result [of d "''build_ms''" "''build_us''"] n(2) by blast
    obtain s where s: "pick_ms d ''send_ms'' ''send_us'' = Inr s"
      using pick_ms_result [of d "''send_ms''" "''send_us''"] n(3) by blast
    obtain w where w: "pick_ms d ''wait_ms'' ''wait_us'' = Inr w"
      using pick_ms_result [of d "''wait_ms''" "''wait_us''"] n(4) by blast
    obtain t where t: "pick_ms d ''total_ms'' ''total_us'' = Inr t"
      using pick_ms_result [of d "''total_ms''" "''total_us''"] n(5) by blast
    have "\<exists>r. make_row d = Inr r"
      by (simp add: make_row_def p b s w t)
    with raises show False
      by auto
  qed
next
  assume bad: "\<exists>k\<in>set us_keys. truthy (dget d k) \<and> unconvertible (dval (dget d k))"
  show "\<exists>e. make_row d = Inl e"
  proof (cases "make_row d")
    case (Inl e)
    then show ?thesis by blast
  next
    case (Inr r)
    note f = make_row_fields [OF Inr]
    have "\<not> (truthy (dget d ''parse_us'') \<and> unconvertible (dval (dget d ''parse_us'')))"
      using pick_ms_result [of d "''parse_ms''" "''parse_us''"] f(1) by auto
    moreover have "\<not> (truthy (dget d ''build_us'') \<and> unconvertible (dval (dget d ''build_us'')))"
      using pick_ms_result [of d "''build_ms''" "''build_us''"] f(2) by auto
    moreover have "\<not> (truthy (dget d ''send_us'') \<and> unconvertible (dval (dget d ''send_us'')))"
      using pick_ms_result [of d "''send_ms''" "''send_us''"] f(3) by auto
    moreover have "\<not> (truthy (dget d ''wait_us'') \<and> unconvertible (dval (dget d ''wait_us'')))"
      using pick_ms_result [of d "''wait_ms''" "''wait_us''"] f(4) by auto
    moreover have "\<not> (truthy (dget d ''total_us'') \<and> unconvertible (dval (dget d ''total_us'')))"
      using pick_ms_result [of d "''total_ms''" "''total_us''"] f(5) by auto
    ultimately have False
      using bad by (auto simp: us_keys_def)
    then show ?thesis ..
  qed
qed

lemma parse_line_raises: "(\<exists>e. parse_line l = Inl e) \<longleftrightarrow> too_large l"
proof (cases "search pattern l")
  case None
  then show ?thesis
    by (simp add: parse_line_def too_large_def)
next
  case (Some d)
  have "(\<exists>e. parse_line l = Inl e) \<longleftrightarrow> (\<exists>e. make_row d = Inl e)"
    using Some by (simp add: parse_line_def bind_err_Inl)
  then show ?thesis
    unfolding make_row_raises using Some by (simp add: too_large_def)
qed

lemma parse_lines_returns:
  assumes "\<forall>l\<in>set ls. \<not> too_large l"
  shows "\<exists>rows'. parse_lines rows ls = Inr rows'"
  using assms
proof (induction ls arbitrary: rows)
  case Nil
  then show ?case by simp
next
  case (Cons l ls)
  then have "\<not> too_large l" by simp
  then obtain r where "parse_line l = Inr r"
    using parse_line_raises [of l] by (cases "parse_line l") auto
  with Cons show ?case
    by (cases r) auto
qed

lemma noise_lines_no_match: "\<forall>l\<in>set noise_lines. search pattern l = None"
  by (simp add: noise_lines_def regex_eval del: rmatch.simps(4))

lemma overflow_search:
  "search pattern overflow_line = Some [(''total_ms'', ''1''), (''wait_ms'', ''1''), (''send_ms'', ''1''),
   (''build_ms'', ''1''), (''parse_us'', overflow_digits), (''op'', ''o''),
   (''mode'', ''m''), (''table'', ''t'')]"
  by (simp add: overflow_line_def overflow_digits_def regex_eval del: rmatch.simps(4))

lemma overflow_value: "to_double (of_int (digits_value overflow_digits)) = Infinity"
  by (simp add: overflow_digits_def digits_value_def digit_val_def float_eval)

lemma overflow_length: "length overflow_digits = 310"
  by (simp add: overflow_digits_def)

lemma overflow_digits_nonempty: "overflow_digits \<noteq> []"
  by (simp add: overflow_digits_def)

lemma overflow_parse_line: "parse_line overflow_line = Inl OverflowError"
  unfolding parse_line_def overflow_search
  by (simp add: make_row_def pick_ms_def dget_def py_int_def int_max_str_digits_def
      overflow_length int_truediv_def overflow_value overflow_digits_nonempty)

lemma noise_lines_not_too_large: "\<forall>l\<in>set noise_lines. \<not> too_large l"
  using noise_lines_no_match by (simp add: too_large_def)

section \<open>Complete records\<close>

lemma timing_pair_denotes: "timing_pair f w \<longleftrightarrow> (\<exists>gs. denotes (timing f g) w gs)"
  unfolding timing_pair_def denotes_timing by blast

lemma complete_record_denotes: "complete_record w \<longleftrightarrow> (\<exists>d. denotes pattern w d)"
proof
  assume "complete_record w"
  then obtain t m p f1 f2 f3 f4 f5 where c:
    "token t" "token m" "token p" "timing_pair ''parse'' f1" "timing_pair ''build'' f2"
    "timing_pair ''send'' f3" "timing_pair ''wait_lsn'' f4" "timing_pair ''total'' f5"
    "w = ''ingest_metrics table='' @ t @ '' mode='' @ m @ '' op='' @ p @ '' '' @ f1 @ '' '' @
            f2 @ '' '' @ f3 @ '' '' @ f4 @ '' '' @ f5"
    unfolding complete_record_def by blast
  from c(4) obtain g1 where g1: "denotes (timing ''parse'' ''parse'') f1 g1"
    using timing_pair_denotes by blast
  from c(5) obtain g2 where g2: "denotes (timing ''build'' ''build'') f2 g2"
    using timing_pair_denotes by blast
  from c(6) obtain g3 where g3: "denotes (timing ''send'' ''send'') f3 g3"
    using timing_pair_denotes by blast
  from c(7) obtain g4 where g4: "denotes (timing ''wait_lsn'' ''wait'') f4 g4"
    using timing_pair_denotes by blast
  from c(8) obtain g5 where g5: "denotes (timing ''total'' ''total'') f5 g5"
    using timing_pair_denotes by blast
  from c(1-3,9) g1 g2 g3 g4 g5 show "\<exists>d. denotes pattern w d"
    unfolding denotes_pattern_raw by blast
next
  assume "\<exists>d. denotes pattern w d"
  then show "complete_record w"
    unfolding denotes_pattern_raw complete_record_def
      timing_pair_denotes [where g = "''parse''" and f = "''parse''"]
      timing_pair_denotes [where g = "''build''" and f = "''build''"]
      timing_pair_denotes [where g = "''send''" and f = "''send''"]
      timing_pair_denotes [where g = "''wait''" and f = "''wait_lsn''"]
      timing_pair_denotes [where g = "''total''" and f = "''total''"]
    by blast
qed


lemma has_complete_record_search: "has_complete_record line \<longleftrightarrow> search pattern line \<noteq> None"
proof
  assume "has_complete_record line"
  then obtain pre w suf d where l: "line = pre @ w @ suf" and d: "denotes pattern w d"
    unfolding has_complete_record_def complete_record_denotes by blast
  have "(d @ [], suf) \<in> set (rmatch pattern [] (w @ suf))"
    using d by (rule rmatch_complete)
  then have "rmatch pattern [] (drop (length pre) line) \<noteq> []"
    unfolding l by auto
  moreover have "length pre \<le> length line"
    unfolding l by simp
  ultimately show "search pattern line \<noteq> None"
    unfolding search_None by blast
next
  assume "search pattern line \<noteq> None"
  then obtain d where "search pattern line = Some d"
    by blast
  from search_Some [OF this] obtain pre rest x xs where
    l: "line = pre @ rest" and r: "rmatch pattern [] rest = (d, x) # xs"
    by blast
  from r have "(d, x) \<in> set (rmatch pattern [] rest)"
    by simp
  from rmatch_sound [OF this] obtain w where "rest = w @ x" "denotes pattern w d"
    by auto
  then show "has_complete_record line"
    unfolding has_complete_record_def complete_record_denotes l by blast
qed

section \<open>Rows built from a match\<close>

lemma denotes_pattern_values:
  assumes "denotes pattern w d" and "(k, v) \<in> set d"
  shows "v \<noteq> []"
  using assms unfolding denotes_pattern_raw denotes_timing
  by (auto simp: token_def digits_def)

lemma search_denotes:
  assumes "search pattern line = Some d"
  shows "\<exists>pre w suf. line = pre @ w @ suf \<and> denotes pattern w d \<and>
    (\<forall>k<length pre. rmatch pattern [] (drop k line) = [])"
proof -
  from search_Some [OF assms] obtain pre rest x xs where
    l: "line = pre @ rest" and r: "rmatch pattern [] rest = (d, x) # xs"
    and n: "\<forall>k<length pre. rmatch pattern [] (drop k line) = []"
    by blast
  from r have "(d, x) \<in> set (rmatch pattern [] rest)"
    by simp
  from rmatch_sound [OF this] obtain w where "rest = w @ x" "denotes pattern w d"
    by auto
  with l n show ?thesis
    by blast
qed

lemma captured_nonempty:
  assumes "search pattern line = Some d" and "dget d k = Some v"
  shows "v \<noteq> []"
proof -
  from search_denotes [OF assms(1)] obtain w where "denotes pattern w d"
    by blast
  moreover have "(k, v) \<in> set d"
    using assms(2) unfolding dget_def by (rule map_of_SomeD)
  ultimately show ?thesis
    by (rule denotes_pattern_values)
qed

lemma pick_ms_normalized:
  assumes "\<And>v. dget d us = Some v \<Longrightarrow> v \<noteq> []" and "\<And>v. dget d ms = Some v \<Longrightarrow> v \<noteq> []"
    and "pick_ms d ms us = Inr x"
  shows "x = normalized (dget d us) (dget d ms)"
proof (cases "dget d us")
  case None
  then show ?thesis
    using assms(2,3) by (cases "dget d ms") (auto simp: pick_ms_def normalized_def)
next
  case (Some u)
  then have "truthy (dget d us)"
    using assms(1) by simp
  then have "bind_err (py_int u) (\<lambda>n. int_truediv n 1000) = Inr x"
    using assms(3) Some by (simp add: pick_ms_def)
  then show ?thesis
    unfolding us_conversion_returns using Some by (simp add: normalized_def)
qed

lemma parse_line_Some:
  "parse_line line = Inr (Some r) \<longleftrightarrow> (\<exists>d. search pattern line = Some d \<and> make_row d = Inr r)"
  by (auto simp: parse_line_def bind_err_Inr split: option.splits)


lemma mixed_line_search:
  "search pattern mixed_line = Some [(''total_ms'', ''13''), (''wait_us'', ''1000''),
     (''send_ms'', ''2''), (''build_us'', ''5000''), (''parse_ms'', ''10''), (''op'', ''insert''),
     (''mode'', ''batch''), (''table'', ''orders'')]"
  by (simp add: mixed_line_def regex_eval del: rmatch.simps(4))

lemmas row_eval = make_row_def pick_ms_def dget_def py_float_def py_int_def int_max_str_digits_def
  digits_value_def digit_val_def float_eval


section \<open>One line, at most one row\<close>

lemma parse_lines_acc:
  assumes "parse_lines acc ls = Inr rows"
  shows "rows = acc @ concat (map (\<lambda>l. case parse_line l of Inr (Some r) \<Rightarrow> [r] | _ \<Rightarrow> []) ls)"
  using assms
proof (induction ls arbitrary: acc)
  case Nil
  then show ?case by simp
next
  case (Cons l ls)
  show ?case
  proof (cases "parse_line l")
    case (Inl e)
    with Cons.prems show ?thesis by simp
  next
    case (Inr ro)
    show ?thesis
    proof (cases ro)
      case None
      with Inr Cons.prems have "parse_lines acc ls = Inr rows" by simp
      from Cons.IH [OF this] show ?thesis using Inr None by simp
    next
      case (Some r)
      with Inr Cons.prems have "parse_lines (acc @ [r]) ls = Inr rows" by simp
      from Cons.IH [OF this] show ?thesis using Inr Some by simp
    qed
  qed
qed





lemma parse_lines_raises:
  assumes "\<exists>l\<in>set ls. too_large l"
  shows "\<exists>e. parse_lines rows ls = Inl e"
  using assms
proof (induction ls arbitrary: rows)
  case Nil
  then show ?case by simp
next
  case (Cons l ls)
  show ?case
  proof (cases "parse_line l")
    case (Inl e)
    then show ?thesis by simp
  next
    case (Inr ro)
    then have "\<not> too_large l"
      using parse_line_raises [of l] by auto
    then have "\<exists>l\<in>set ls. too_large l"
      using Cons.prems by simp
    then show ?thesis
      using Inr Cons.IH by (cases ro) simp_all
  qed
qed

lemma starting_line_not_too_large: "\<not> too_large ''2024-05-01 INFO starting ingestion''"
  using noise_lines_no_match by (simp add: too_large_def noise_lines_def)

lemma mixed_line_not_too_large: "\<not> too_large mixed_line"
  unfolding too_large_def mixed_line_search
  by (simp add: us_keys_def dget_def unconvertible_def int_max_str_digits_def digits_value_def
      digit_val_def float_eval)

lemma overflow_line_too_large: "too_large overflow_line"
  using overflow_parse_line parse_line_raises [of overflow_line] by auto


section \<open>Groups and their order\<close>

lemma setdefault_append_keys:
  "map fst (setdefault_append m k r) = (if k \<in> set (map fst m) then map fst m else map fst m @ [k])"
  by (induction m k r rule: setdefault_append.induct) force+

lemma foldl_setdefault_keys:
  "distinct (map fst m) \<Longrightarrow>
     distinct (map fst (foldl (\<lambda>m r. setdefault_append m (key_of r) r) m rows)) \<and>
     set (map fst (foldl (\<lambda>m r. setdefault_append m (key_of r) r) m rows)) =
       set (map fst m) \<union> key_of ` set rows"
proof (induction rows arbitrary: m)
  case Nil
  then show ?case by simp
next
  case (Cons r rows)
  have d: "distinct (map fst (setdefault_append m (key_of r) r))"
    using Cons.prems by (simp add: setdefault_append_keys)
  have s: "set (map fst (setdefault_append m (key_of r) r)) = insert (key_of r) (set (map fst m))"
    unfolding setdefault_append_keys by (cases "key_of r \<in> set (map fst m)") (simp_all add: insert_absorb)
  show ?case
    using Cons.IH [OF d] unfolding foldl_Cons s by auto
qed

lemma by_key_distinct: "distinct (map fst (by_key rows))"
  using foldl_setdefault_keys [of "[]" rows] by (simp add: by_key_def)

lemma by_key_keys: "set (map fst (by_key rows)) = key_of ` set rows"
  using foldl_setdefault_keys [of "[]" rows] by (simp add: by_key_def)

lemma filter_same_key:
  assumes "distinct (map f xs)" and "k \<in> set xs"
  shows "filter (\<lambda>x. f k = f x) xs = [k]"
  using assms
proof (induction xs)
  case Nil
  then show ?case by simp
next
  case (Cons x xs)
  show ?case
  proof (cases "k = x")
    case True
    have "filter (\<lambda>y. f x = f y) xs = []"
      using Cons.prems(1) by (auto simp: filter_empty_conv)
    then show ?thesis
      using True by simp
  next
    case False
    then have "k \<in> set xs"
      using Cons.prems(2) by simp
    moreover have "f x \<notin> f ` set xs"
      using Cons.prems(1) by simp
    then have "f k \<noteq> f x"
      using \<open>k \<in> set xs\<close> by (metis image_eqI)
    ultimately show ?thesis
      using Cons by simp
  qed
qed

lemma sorted_items_permutation:
  assumes "mset xs = mset ys" and "distinct (map fst ys)"
  shows "sorted_items xs = sorted_items ys"
  unfolding sorted_items_def
proof (rule properties_for_sort_key)
  show "mset (sort_key fst ys) = mset xs"
    using assms(1) by simp
  show "sorted (map fst (sort_key fst ys))"
    by (rule sorted_sort_key)
  fix k
  assume "k \<in> set (sort_key fst ys)"
  then have ky: "k \<in> set ys"
    by simp
  then have kx: "k \<in> set xs"
    using assms(1) by (metis mset_eq_setD)
  have "mset (map fst xs) = mset (map fst ys)"
    using assms(1) by (metis mset_map)
  then have dx: "distinct (map fst xs)"
    using assms(2) by (metis mset_eq_imp_distinct_iff)
  have "mset (map fst (sort_key fst ys)) = mset (map fst ys)"
    by (metis mset_map mset_sort)
  then have ds: "distinct (map fst (sort_key fst ys))"
    using assms(2) by (metis mset_eq_imp_distinct_iff)
  have "filter (\<lambda>x. fst k = fst x) (sort_key fst ys) = [k]"
    using ds \<open>k \<in> set (sort_key fst ys)\<close> by (rule filter_same_key)
  moreover have "filter (\<lambda>x. fst k = fst x) xs = [k]"
    using dx kx by (rule filter_same_key)
  ultimately show "filter (\<lambda>x. fst k = fst x) (sort_key fst ys) = filter (\<lambda>x. fst k = fst x) xs"
    by simp
qed

lemma summarize_ordered_eq:
  assumes "\<And>m. mset (items_of m) = mset m"
  shows "summarize_ordered items_of rows = summarize rows"
proof -
  have "sorted_items (items_of (by_key rows)) = sorted_items (by_key rows)"
    using assms by_key_distinct by (rule sorted_items_permutation)
  then show ?thesis
    by (simp add: summarize_ordered_def summarize_def)
qed

lemma main_ordered_eq:
  assumes "\<And>m. mset (items_of m) = mset m"
  shows "main_ordered items_of fs argv = main fs argv"
  unfolding main_ordered_def main_def summarize_ordered_eq [OF assms] ..

section \<open>Facts about the printed numbers\<close>

subsection \<open>Decimal digits\<close>

lemma digit_char_digit: "n < 10 \<Longrightarrow> is_digit (digit_char n)"
  by (simp add: digit_char_def is_digit_def)

lemma digit_val_digit_char: "n < 10 \<Longrightarrow> digit_val (digit_char n) = int n"
  by (simp add: digit_char_def digit_val_def)

lemma digits_value_snoc: "digits_value (s @ [c]) = 10 * digits_value s + digit_val c"
  by (simp add: digits_value_def)

lemma str_nat_digits: "digits (str_nat n)"
proof (induction n rule: str_nat.induct)
  case (1 n)
  show ?case
  proof (cases "n < 10")
    case True
    then show ?thesis
      by (subst str_nat.simps) (simp add: digits_def digit_char_digit)
  next
    case False
    then have "digits (str_nat (n div 10))"
      by (rule "1.IH")
    then show ?thesis
      using False by (subst str_nat.simps) (simp add: digits_def digit_char_digit)
  qed
qed

lemma str_nat_value: "digits_value (str_nat n) = int n"
proof (induction n rule: str_nat.induct)
  case (1 n)
  show ?case
  proof (cases "n < 10")
    case True
    then show ?thesis
      by (subst str_nat.simps) (simp add: digits_value_def digit_val_digit_char)
  next
    case False
    then have "digits_value (str_nat (n div 10)) = int (n div 10)"
      by (rule "1.IH")
    then show ?thesis
      using False
      by (subst str_nat.simps) (simp add: digits_value_snoc digit_val_digit_char zdiv_int zmod_int)
  qed
qed

lemma str_nat_small: "n < 10 \<Longrightarrow> str_nat n = [digit_char n]"
  by (subst str_nat.simps) simp

lemma digits_no_point: "digits s \<Longrightarrow> takeWhile (\<lambda>c. c \<noteq> CHR ''.'') (s @ CHR ''.'' # t) = s"
proof -
  assume "digits s"
  then have "\<forall>c\<in>set s. c \<noteq> CHR ''.''"
    by (auto simp: digits_def list_all_iff is_digit_def)
  then show ?thesis
    by (simp add: takeWhile_append2)
qed

subsection \<open>The format with one decimal\<close>

lemma round_half_even_nonneg: "0 \<le> q \<Longrightarrow> 0 \<le> round_half_even q"
proof -
  assume "0 \<le> q"
  then have "0 \<le> \<lfloor>q\<rfloor>"
    by simp
  then show ?thesis
    by (simp add: round_half_even_def Let_def)
qed

lemma format_1f_nonneg:
  assumes "0 \<le> q"
  defines "k \<equiv> nat (round_half_even (q * 10))"
  shows "format_1f (Finite q) = str_nat (k div 10) @ ''.'' @ [digit_char (k mod 10)]"
  using assms by (simp add: Let_def str_nat_small)

lemma format_1f_one_decimal:
  assumes "nonneg x"
  shows "one_decimal (format_1f x) \<or> format_1f x = ''inf''"
proof (cases x)
  case (Finite q)
  then have "0 \<le> q"
    using assms by simp
  then show ?thesis
    unfolding Finite format_1f_nonneg [OF \<open>0 \<le> q\<close>] one_decimal_def
    by (intro disjI1 exI [of _ "str_nat (nat (round_half_even (q * 10)) div 10)"]
        exI [of _ "digit_char (nat (round_half_even (q * 10)) mod 10)"])
      (simp add: str_nat_digits digit_char_digit)
next
  case Infinity
  then show ?thesis by simp
qed

lemma read_format_1f:
  assumes "0 \<le> q"
  shows "read_decimal (format_1f (Finite q)) = of_int (round_half_even (q * 10)) / 10"
proof -
  define k where "k = nat (round_half_even (q * 10))"
  have k: "int k = round_half_even (q * 10)"
    unfolding k_def using round_half_even_nonneg [of "q * 10"] assms by simp
  have f: "format_1f (Finite q) = str_nat (k div 10) @ CHR ''.'' # [digit_char (k mod 10)]"
    using format_1f_nonneg [OF assms] by (simp add: k_def)
  have ip: "takeWhile (\<lambda>c. c \<noteq> CHR ''.'') (str_nat (k div 10) @ CHR ''.'' # [digit_char (k mod 10)]) =
      str_nat (k div 10)"
    by (rule digits_no_point) (rule str_nat_digits)
  have "read_decimal (format_1f (Finite q)) =
      of_int (digits_value (str_nat (k div 10))) + of_int (digits_value [digit_char (k mod 10)]) / 10"
    unfolding read_decimal_def Let_def f ip by simp
  also have "\<dots> = of_int (int (k div 10)) + of_int (int (k mod 10)) / 10"
  proof -
    have "digits_value [digit_char (k mod 10)] = int (k mod 10)"
      by (simp add: digits_value_def digit_val_digit_char)
    then show ?thesis
      by (simp add: str_nat_value)
  qed
  also have "\<dots> = of_int (int k) / 10"
  proof -
    have "k = 10 * (k div 10) + k mod 10"
      by simp
    then have "int k = 10 * int (k div 10) + int (k mod 10)"
      by linarith
    then have "(of_int (int k) :: rat) = 10 * of_int (int (k div 10)) + of_int (int (k mod 10))"
      by (metis of_int_add of_int_mult of_int_numeral)
    then show ?thesis
      by simp
  qed
  finally show ?thesis
    unfolding k .
qed

lemma format_1f_close:
  assumes "0 \<le> q"
  shows "\<bar>read_decimal (format_1f (Finite q)) - q\<bar> \<le> 1 / 20"
proof -
  have "\<bar>of_int (round_half_even (q * 10)) - q * 10\<bar> \<le> 1 / 2"
    by (rule round_half_even_close)
  then have "\<bar>of_int (round_half_even (q * 10)) / 10 - q\<bar> \<le> 1 / 20"
    by (simp add: abs_le_iff field_simps)
  then show ?thesis
    unfolding read_format_1f [OF assms] .
qed

subsection \<open>Signs\<close>

lemma to_double_nonneg:
  assumes "0 \<le> q"
  shows "nonneg (to_double q)"
proof (cases "q = 0")
  case True
  then show ?thesis by (simp add: to_double_def)
next
  case False
  then have q: "0 < q"
    using assms by simp
  define e where "e = max (bin_exponent \<bar>q\<bar> - 52) (- 1074)"
  define v where "v = (of_int (round_half_even (\<bar>q\<bar> / 2 powi e)) * 2 powi e :: rat)"
  have "0 \<le> \<bar>q\<bar> / 2 powi e"
    by simp
  then have "0 \<le> round_half_even (\<bar>q\<bar> / 2 powi e)"
    by (rule round_half_even_nonneg)
  then have "0 \<le> v"
    unfolding v_def by simp
  moreover have "to_double q = (if 2 ^ 1024 \<le> v then Infinity else Finite (sgn q * v))"
    using False unfolding to_double_def Let_def e_def v_def by simp
  ultimately show ?thesis
    using q by simp
qed

lemma digits_value_nonneg:
  assumes "digits s"
  shows "0 \<le> digits_value s"
proof -
  have "0 \<le> foldl (\<lambda>a c. 10 * a + digit_val c) a s" if "0 \<le> a" "list_all is_digit s" for a
    using that
  proof (induction s arbitrary: a)
    case Nil
    then show ?case by simp
  next
    case (Cons c s)
    have "is_digit c"
      using Cons.prems(2) by simp
    then have "0 \<le> digit_val c"
      by (simp add: is_digit_def digit_val_def Let_def)
    then have "0 \<le> 10 * a + digit_val c"
      using Cons.prems(1) by simp
    then show ?case
      using Cons.IH Cons.prems(2) by simp
  qed
  then show ?thesis
    using assms unfolding digits_value_def digits_def by simp
qed

lemma float_div_nonneg: "nonneg x \<Longrightarrow> nonneg (float_div x 1000)"
  by (cases x) (simp_all add: to_double_nonneg)

lemma normalized_nonneg:
  assumes "\<And>u. us = Some u \<Longrightarrow> digits u" and "\<And>m. ms = Some m \<Longrightarrow> digits m"
  shows "nonneg (normalized us ms)"
proof (cases us)
  case None
  then show ?thesis
    using assms(2)
    by (cases ms) (simp_all add: normalized_def py_float_def to_double_nonneg digits_value_nonneg)
next
  case (Some u)
  then have "nonneg (to_double (of_int (digits_value u)))"
    using assms(1) by (simp add: to_double_nonneg digits_value_nonneg)
  then show ?thesis
    using Some by (simp add: normalized_def float_div_nonneg)
qed

subsection \<open>Rows that come from the parser\<close>

lemma denotes_pattern_digits:
  assumes "denotes pattern w d" and "(k, v) \<in> set d" and "k \<noteq> ''table''" and "k \<noteq> ''mode''"
    and "k \<noteq> ''op''"
  shows "digits v"
  using assms unfolding denotes_pattern_raw denotes_timing
  by auto

lemma denotes_pattern_keys:
  assumes "denotes pattern w d"
  shows "\<exists>t m p. dget d ''table'' = Some t \<and> token t \<and> dget d ''mode'' = Some m \<and> token m \<and>
    dget d ''op'' = Some p \<and> token p"
  using assms unfolding denotes_pattern_raw denotes_timing dget_def
  by auto

lemma captured_digits:
  assumes "search pattern line = Some d" and "dget d k = Some v" and "k \<noteq> ''table''"
    and "k \<noteq> ''mode''" and "k \<noteq> ''op''"
  shows "digits v"
proof -
  from search_denotes [OF assms(1)] obtain w where "denotes pattern w d"
    by blast
  moreover have "(k, v) \<in> set d"
    using assms(2) unfolding dget_def by (rule map_of_SomeD)
  ultimately show ?thesis
    using assms(3-5) by (rule denotes_pattern_digits)
qed

lemma parse_line_row:
  assumes "parse_line line = Inr (Some r)"
  shows "nonneg_row r \<and> token (table r) \<and> token (mode r) \<and> token (op r)"
proof -
  from assms obtain d where s: "search pattern line = Some d" and m: "make_row d = Inr r"
    unfolding parse_line_Some by blast
  note ne = captured_nonempty [OF s]
  have n: "nonneg (normalized (dget d us) (dget d ms))"
    if "us \<noteq> ''table''" "us \<noteq> ''mode''" "us \<noteq> ''op''" "ms \<noteq> ''table''" "ms \<noteq> ''mode''"
      "ms \<noteq> ''op''" for us ms
  proof (rule normalized_nonneg)
    fix u
    assume "dget d us = Some u"
    then show "digits u"
      using that(1-3) by (rule captured_digits [OF s])
  next
    fix m
    assume "dget d ms = Some m"
    then show "digits m"
      using that(4-6) by (rule captured_digits [OF s])
  qed
  note f = make_row_fields [OF m]
  have "parse r = normalized (dget d ''parse_us'') (dget d ''parse_ms'')"
    by (rule pick_ms_normalized [OF ne ne f(1)])
  moreover have "build r = normalized (dget d ''build_us'') (dget d ''build_ms'')"
    by (rule pick_ms_normalized [OF ne ne f(2)])
  moreover have "send r = normalized (dget d ''send_us'') (dget d ''send_ms'')"
    by (rule pick_ms_normalized [OF ne ne f(3)])
  moreover have "wait r = normalized (dget d ''wait_us'') (dget d ''wait_ms'')"
    by (rule pick_ms_normalized [OF ne ne f(4)])
  moreover have "total r = normalized (dget d ''total_us'') (dget d ''total_ms'')"
    by (rule pick_ms_normalized [OF ne ne f(5)])
  ultimately have "nonneg_row r"
    unfolding nonneg_row_def by (simp add: n)
  moreover from search_denotes [OF s] obtain w where "denotes pattern w d"
    by blast
  then have "token (table r) \<and> token (mode r) \<and> token (op r)"
    using denotes_pattern_keys [of w d] f(6-8) by auto
  ultimately show ?thesis
    by simp
qed

lemma parse_lines_rows:
  assumes "parse_lines acc ls = Inr rows" and "r \<in> set rows"
  shows "r \<in> set acc \<or> (\<exists>l\<in>set ls. parse_line l = Inr (Some r))"
proof -
  have "rows = acc @ concat (map (\<lambda>l. case parse_line l of Inr (Some r) \<Rightarrow> [r] | _ \<Rightarrow> []) ls)"
    using assms(1) by (rule parse_lines_acc)
  then show ?thesis
    using assms(2) by (auto split: sum.splits option.splits)
qed

subsection \<open>The rows of the report\<close>

lemma mean_mean_value: "xs \<noteq> [] \<Longrightarrow> mean xs = Inr (mean_value xs)"
  by (simp add: mean_def mean_value_def exact_mean_def split: option.split)

lemma format_row_report_row:
  assumes "snd ki \<noteq> []"
  shows "format_row ki = Inr (report_row ki)"
proof -
  obtain k0 k1 k2 items where ki: "ki = ((k0, k1, k2), items)"
    by (metis prod.collapse)
  then have "items \<noteq> []"
    using assms by simp
  then show ?thesis
    unfolding ki format_row_def report_row_def by (simp add: mean_mean_value)
qed

lemma print_rows_report_rows:
  assumes "\<forall>(k, items)\<in>set kis. items \<noteq> []"
  shows "print_rows kis = (map report_row kis, None)"
  using assms
proof (induction kis)
  case Nil
  then show ?case by simp
next
  case (Cons ki kis)
  have "snd ki \<noteq> []"
    using Cons.prems by (cases ki) simp
  then have "format_row ki = Inr (report_row ki)"
    by (rule format_row_report_row)
  moreover have "print_rows kis = (map report_row kis, None)"
    using Cons by simp
  ultimately show ?case
    by simp
qed

lemma summarize_report:
  assumes "rows \<noteq> []"
  shows "summarize rows =
    (''Averages by (table, mode, op):'' # header # map report_row (sorted_items (by_key rows)), None)"
proof -
  have "\<forall>(k, items)\<in>set (sorted_items (by_key rows)). items \<noteq> []"
    using by_key_nonempty [of rows] by (simp add: sorted_items_def)
  then have "print_rows (sorted_items (by_key rows)) = (map report_row (sorted_items (by_key rows)), None)"
    by (rule print_rows_report_rows)
  then show ?thesis
    using assms by (simp add: summarize_def)
qed

subsection \<open>The records of a group\<close>

lemma setdefault_append_lookup:
  assumes "distinct (map fst m)"
  shows "map_of (setdefault_append m k r) k' =
    (if k' = k then Some ((case map_of m k of None \<Rightarrow> [] | Some rs \<Rightarrow> rs) @ [r]) else map_of m k')"
  using assms
proof (induction m k r rule: setdefault_append.induct)
  case (1 k r)
  then show ?case by simp
next
  case (2 k0 rs m k r)
  show ?case
  proof (cases "k0 = k")
    case True
    then show ?thesis by simp
  next
    case False
    have "distinct (map fst m)"
      using "2.prems" by simp
    then show ?thesis
      using False "2.IH" by auto
  qed
qed

lemma foldl_setdefault_lookup:
  assumes "distinct (map fst m)"
  shows "(case map_of (foldl (\<lambda>m r. setdefault_append m (key_of r) r) m rows) k of
            None \<Rightarrow> [] | Some rs \<Rightarrow> rs) =
         (case map_of m k of None \<Rightarrow> [] | Some rs \<Rightarrow> rs) @ filter (\<lambda>r. key_of r = k) rows"
  using assms
proof (induction rows arbitrary: m)
  case Nil
  then show ?case by simp
next
  case (Cons r rows)
  have d: "distinct (map fst (setdefault_append m (key_of r) r))"
    using Cons.prems by (simp add: setdefault_append_keys)
  show ?case
    unfolding foldl_Cons Cons.IH [OF d] setdefault_append_lookup [OF Cons.prems]
    by simp
qed

lemma by_key_items:
  assumes "(k, items) \<in> set (by_key rows)"
  shows "items = filter (\<lambda>r. key_of r = k) rows"
proof -
  have "map_of (by_key rows) k = Some items"
    using by_key_distinct assms by (rule map_of_is_SomeI)
  then show ?thesis
    using foldl_setdefault_lookup [of "[]" rows k] by (simp add: by_key_def)
qed

subsection \<open>The order of the rows\<close>

lemma str_less_iff: "str_less a b \<longleftrightarrow> a < b"
proof (induction a b rule: str_less.induct)
  case (4 x xs y ys)
  then show ?case
    by (auto simp: less_char_def)
qed simp_all

lemma key_less_iff: "key_less a b \<longleftrightarrow> a < b"
  by (cases a; cases b) (auto simp: str_less_iff less_prod_def)

lemma sorted_items_keys:
  "sorted_wrt (<) (map fst (sorted_items (by_key rows)))"
proof -
  have "mset (map fst (sort_key fst (by_key rows))) = mset (map fst (by_key rows))"
    by (metis mset_map mset_sort)
  then have "distinct (map fst (sort_key fst (by_key rows)))"
    using by_key_distinct [of rows] by (metis mset_eq_imp_distinct_iff)
  moreover have "sorted (map fst (sort_key fst (by_key rows)))"
    by (rule sorted_sort_key)
  ultimately show ?thesis
    unfolding sorted_items_def by (simp add: strict_sorted_iff)
qed

lemma sorted_items_set: "set (sorted_items m) = set m"
  by (simp add: sorted_items_def)

subsection \<open>The sample files\<close>

lemma key_le_eval: "(a :: key) \<le> b \<longleftrightarrow> \<not> key_less b a"
  by (simp add: key_less_iff not_less)

lemma groups_lines_search:
  "map (search pattern) groups_lines =
    [Some [(''total_ms'', ''10''), (''wait_ms'', ''4''), (''send_ms'', ''3''), (''build_ms'', ''2''),
       (''parse_ms'', ''1''), (''op'', ''y''), (''mode'', ''x''), (''table'', ''b'')],
     Some [(''total_ms'', ''7''), (''wait_ms'', ''4''), (''send_ms'', ''3''), (''build_ms'', ''2''),
       (''parse_us'', ''1500''), (''op'', ''y''), (''mode'', ''x''), (''table'', ''a'')],
     Some [(''total_ms'', ''20''), (''wait_ms'', ''4''), (''send_ms'', ''3''), (''build_ms'', ''2''),
       (''parse_ms'', ''2''), (''op'', ''y''), (''mode'', ''x''), (''table'', ''b'')]]"
  by (simp add: groups_lines_def regex_eval del: rmatch.simps(4))

lemma groups_lines_rows: "parse_lines [] groups_lines = Inr [row_b1, row_a, row_b2]"
proof -
  have "map parse_line groups_lines = [Inr (Some row_b1), Inr (Some row_a), Inr (Some row_b2)]"
    using groups_lines_search
    by (simp add: groups_lines_def parse_line_def row_eval row_b1_def row_a_def row_b2_def)
  then show ?thesis
    by (simp add: groups_lines_def)
qed

lemma groups_by_key:
  "sorted_items (by_key [row_b1, row_a, row_b2]) =
     [((''a'', ''x'', ''y''), [row_a]), ((''b'', ''x'', ''y''), [row_b1, row_b2])]"
  by (simp add: by_key_def key_of_def row_b1_def row_a_def row_b2_def sorted_items_def key_le_eval)

lemmas report_eval = report_row_def mean_value_def exact_mean_def float_eval str_nat.simps
  digit_char_def char_of_eq_iff

lemma groups_report:
  "report_row ((''a'', ''x'', ''y''), [row_a]) =
     join_tab [''a'', ''x'', ''y'', ''1'', ''1.5'', ''2.0'', ''3.0'', ''4.0'', ''7.0'']"
  "report_row ((''b'', ''x'', ''y''), [row_b1, row_b2]) =
     join_tab [''b'', ''x'', ''y'', ''2'', ''1.5'', ''2.0'', ''3.0'', ''4.0'', ''15.0'']"
  by (simp_all add: row_b1_def row_a_def row_b2_def report_eval)

lemma groups_main:
  "main groups_fs [''parse_ingest_metrics.py'', ''groups.log''] =
     ([''Averages by (table, mode, op):'', header,
       join_tab [''a'', ''x'', ''y'', ''1'', ''1.5'', ''2.0'', ''3.0'', ''4.0'', ''7.0''],
       join_tab [''b'', ''x'', ''y'', ''2'', ''1.5'', ''2.0'', ''3.0'', ''4.0'', ''15.0'']], Exit 0)"
proof -
  have r: "[row_b1, row_a, row_b2] \<noteq> []"
    by simp
  have "parse_file groups_fs ''groups.log'' = Inr [row_b1, row_a, row_b2]"
    by (simp add: parse_file_def groups_fs_def groups_lines_rows)
  then show ?thesis
    unfolding main_def by (simp add: summarize_report [OF r] groups_by_key groups_report)
qed

subsection \<open>Fields of a line\<close>

lemma split_tab_no_tab: "CHR 0x09 \<notin> set x \<Longrightarrow> split_tab x = [x]"
  by (induction x) auto

lemma split_tab_append:
  "CHR 0x09 \<notin> set x \<Longrightarrow> split_tab (x @ tab @ rest) = x # split_tab rest"
  by (induction x) (auto simp: tab_def)

lemma split_join_tab:
  assumes "xs \<noteq> []" and "\<forall>x\<in>set xs. CHR 0x09 \<notin> set x"
  shows "split_tab (join_tab xs) = xs"
  using assms
proof (induction xs rule: join_tab.induct)
  case 1
  then show ?case by simp
next
  case (2 x)
  then show ?case by (simp add: split_tab_no_tab)
next
  case (3 x y ys)
  then show ?case by (simp add: split_tab_append)
qed

lemma token_no_tab: "token t \<Longrightarrow> CHR 0x09 \<notin> set t"
  by (auto simp: token_def list_all_iff is_space_def)

lemma digits_no_tab: "digits t \<Longrightarrow> CHR 0x09 \<notin> set t"
  by (auto simp: digits_def list_all_iff is_digit_def)

lemma one_decimal_no_tab: "one_decimal v \<or> v = ''inf'' \<Longrightarrow> CHR 0x09 \<notin> set v"
  by (auto simp: one_decimal_def is_digit_def dest: digits_no_tab)

subsection \<open>The mean of a group\<close>

lemma finite_vals_nonneg:
  assumes "finite_vals xs = Some qs" and "\<forall>x\<in>set xs. nonneg x"
  shows "\<forall>q\<in>set qs. 0 \<le> q"
  using assms
proof (induction xs arbitrary: qs rule: finite_vals.induct)
  case 1
  then show ?case by simp
next
  case (2 xs)
  then show ?case by simp
next
  case (3 q xs)
  then show ?case by auto
qed

lemma mean_value_nonneg:
  assumes "\<forall>x\<in>set xs. nonneg x"
  shows "nonneg (mean_value xs)"
proof (cases "finite_vals xs")
  case None
  then show ?thesis by (simp add: mean_value_def)
next
  case (Some qs)
  then have "\<forall>q\<in>set qs. 0 \<le> q"
    using assms by (rule finite_vals_nonneg)
  then have "0 \<le> sum_list qs"
    by (simp add: sum_list_nonneg)
  then have "0 \<le> exact_mean qs"
    by (simp add: exact_mean_def)
  then show ?thesis
    using Some by (simp add: mean_value_def to_double_nonneg)
qed

lemma finite_vals_length: "finite_vals xs = Some qs \<Longrightarrow> length qs = length xs"
proof (induction xs arbitrary: qs rule: finite_vals.induct)
  case 1
  then show ?case by simp
next
  case (2 xs)
  then show ?case by simp
next
  case (3 q xs)
  then show ?case by auto
qed

lemma to_double_close:
  assumes "0 \<le> q" and "to_double q = Finite m"
  shows "\<bar>m - q\<bar> \<le> q / 2 ^ 53 + 1 / 2 ^ 1075"
proof (cases "q = 0")
  case True
  then show ?thesis
    using assms(2) by (simp add: to_double_def)
next
  case False
  then have q: "0 < q"
    using assms(1) by simp
  define e where "e = max (bin_exponent \<bar>q\<bar> - 52) (- 1074)"
  define x where "x = q / 2 powi e"
  have m: "m = of_int (round_half_even x) * 2 powi e"
    using assms(2) False q unfolding to_double_def Let_def e_def x_def
    by (simp split: if_splits)
  have p: "(0::rat) < 2 powi e"
    by simp
  have "q = x * 2 powi e"
    unfolding x_def by simp
  then have "m - q = (of_int (round_half_even x) - x) * 2 powi e"
    unfolding m by (simp add: algebra_simps)
  then have "\<bar>m - q\<bar> = \<bar>of_int (round_half_even x) - x\<bar> * 2 powi e"
    using p by (simp add: abs_mult)
  also have "\<dots> \<le> 1 / 2 * 2 powi e"
    using round_half_even_close [of x] p by (intro mult_right_mono) simp_all
  finally have b: "\<bar>m - q\<bar> \<le> 2 powi e / 2"
    by simp
  have "(2::rat) powi e / 2 \<le> q / 2 ^ 53 + 1 / 2 ^ 1075"
  proof (cases "- 1074 \<le> bin_exponent \<bar>q\<bar> - 52")
    case True
    then have e: "e = bin_exponent q - 52"
      using q by (simp add: e_def)
    have "(2::rat) powi (bin_exponent q - 52) = 2 powi bin_exponent q / 2 powi 52"
      by (rule power_int_diff) simp
    moreover have "2 powi bin_exponent q \<le> q"
      using bin_exponent_bounds [OF q] by simp
    ultimately have "(2::rat) powi e \<le> q / 2 ^ 52"
      unfolding e by (simp add: divide_right_mono)
    then have "(2::rat) powi e / 2 \<le> q / 2 ^ 53"
      by simp
    then show ?thesis
      by (simp add: add_increasing2)
  next
    case False
    then have "e = - 1074"
      by (simp add: e_def)
    then have "(2::rat) powi e / 2 = 1 / 2 ^ 1075"
      by (simp add: power_int_def inverse_eq_divide power_one_over)
    then show ?thesis
      using q by simp
  qed
  with b show ?thesis
    by simp
qed

section \<open>The claims\<close>

subsection \<open>Empty results\<close>

text \<open>
  Claim C6. When the file named on the command line can be read and none of its lines
  matches the pattern (the empty file included), the script prints exactly one line,
  \<^verbatim>\<open>No ingest_metrics lines found\<close>, and ends with exit status 0.
\<close>

theorem no_matching_lines:
  assumes "2 \<le> length argv" and "fs (argv ! 1) = Some ls"
    and "\<forall>l\<in>set ls. search pattern l = None"
  shows "main fs argv = ([''No ingest_metrics lines found''], Exit 0)"
proof -
  have "parse_file fs (argv ! 1) = Inr []"
    using assms(2,3) by (simp add: parse_file_def parse_lines_no_match)
  then show ?thesis
    using assms(1) by (simp add: main_def summarize_def)
qed

theorem no_matching_lines_witness:
  "2 \<le> length [''parse_ingest_metrics.py'', ''noise.log''] \<and>
   noise_fs ([''parse_ingest_metrics.py'', ''noise.log''] ! 1) = Some noise_lines \<and>
   list_all (\<lambda>l. search pattern l = None) noise_lines \<and>
   main noise_fs [''parse_ingest_metrics.py'', ''noise.log''] =
     ([''No ingest_metrics lines found''], Exit 0)"
proof -
  have a: "2 \<le> length [''parse_ingest_metrics.py'', ''noise.log'']"
    by simp
  have f: "noise_fs ([''parse_ingest_metrics.py'', ''noise.log''] ! 1) = Some noise_lines"
    by (simp add: noise_fs_def)
  show ?thesis
    using a f noise_lines_no_match
      no_matching_lines [of "[''parse_ingest_metrics.py'', ''noise.log'']" noise_fs noise_lines]
    by (simp add: list_all_iff)
qed

subsection \<open>Usage and exit status\<close>

text \<open>
  Claim C7, as stated, promises exit status 0 whenever the argument is present and the
  file can be opened. A record whose microsecond value does not fit a float makes
  \<^verbatim>\<open>pick_ms\<close> raise \<^verbatim>\<open>OverflowError\<close>; nothing catches it, no report is printed and
  the status is 1.
\<close>

theorem exit_code_counterexample:
  "overflow_fs ''overflow.log'' = Some [overflow_line] \<and>
   main overflow_fs [''parse_ingest_metrics.py'', ''overflow.log''] = ([], Uncaught OverflowError) \<and>
   exit_code (Uncaught OverflowError) = 1"
  by (simp add: main_def overflow_fs_def parse_file_def overflow_parse_line)

text \<open>
  Claim C7, amended. Without the file argument the script prints the usage line and
  exits with status 1, whatever the file system holds. With the argument and a readable
  file, the exit status is 0 exactly when no line of the file holds a captured microsecond
  value that cannot be converted (more than 4300 digits, or too large for a float), and 1
  otherwise.
\<close>

theorem usage_and_exit_code:
  "(length argv < 2 \<longrightarrow>
      main fs argv = ([''Usage: parse_ingest_metrics.py <log_file>''], Exit 1)) \<and>
   (2 \<le> length argv \<and> fs (argv ! 1) = Some ls \<longrightarrow>
      exit_code (snd (main fs argv)) = (if \<exists>l\<in>set ls. too_large l then 1 else 0))"
proof (intro conjI impI)
  assume "length argv < 2"
  then show "main fs argv = ([''Usage: parse_ingest_metrics.py <log_file>''], Exit 1)"
    by (simp add: main_def)
next
  assume a: "2 \<le> length argv \<and> fs (argv ! 1) = Some ls"
  show "exit_code (snd (main fs argv)) = (if \<exists>l\<in>set ls. too_large l then 1 else 0)"
  proof (cases "\<exists>l\<in>set ls. too_large l")
    case True
    have "\<exists>e. parse_lines [] ls = Inl e"
      using True by (rule parse_lines_raises)
    then obtain e where "parse_file fs (argv ! 1) = Inl e"
      using a by (auto simp: parse_file_def)
    then show ?thesis
      using a True main_exit_code [of argv fs] by simp
  next
    case False
    then obtain rows where "parse_file fs (argv ! 1) = Inr rows"
      using a parse_lines_returns [of ls "[]"] by (auto simp: parse_file_def)
    then show ?thesis
      using a False main_exit_code [of argv fs] by simp
  qed
qed

theorem usage_and_exit_code_witness:
  "length [''parse_ingest_metrics.py''] < 2 \<and>
   main mixed_fs [''parse_ingest_metrics.py''] =
     ([''Usage: parse_ingest_metrics.py <log_file>''], Exit 1) \<and>
   2 \<le> length [''parse_ingest_metrics.py'', ''mixed.log''] \<and>
   mixed_fs ([''parse_ingest_metrics.py'', ''mixed.log''] ! 1) =
     Some [''2024-05-01 INFO starting ingestion'', mixed_line] \<and>
   \<not> too_large ''2024-05-01 INFO starting ingestion'' \<and> \<not> too_large mixed_line \<and>
   exit_code (snd (main mixed_fs [''parse_ingest_metrics.py'', ''mixed.log''])) = 0 \<and>
   overflow_fs ([''parse_ingest_metrics.py'', ''overflow.log''] ! 1) = Some [overflow_line] \<and>
   too_large overflow_line \<and>
   exit_code (snd (main overflow_fs [''parse_ingest_metrics.py'', ''overflow.log''])) = 1"
proof -
  have f: "mixed_fs ([''parse_ingest_metrics.py'', ''mixed.log''] ! 1) =
      Some [''2024-05-01 INFO starting ingestion'', mixed_line]"
    by (simp add: mixed_fs_def)
  have g: "overflow_fs ([''parse_ingest_metrics.py'', ''overflow.log''] ! 1) = Some [overflow_line]"
    by (simp add: overflow_fs_def)
  show ?thesis
    using f g starting_line_not_too_large mixed_line_not_too_large overflow_line_too_large
      usage_and_exit_code [of "[''parse_ingest_metrics.py'']" mixed_fs "[]"]
      usage_and_exit_code [of "[''parse_ingest_metrics.py'', ''mixed.log'']" mixed_fs
        "[''2024-05-01 INFO starting ingestion'', mixed_line]"]
      usage_and_exit_code [of "[''parse_ingest_metrics.py'', ''overflow.log'']" overflow_fs
        "[overflow_line]"]
    by simp
qed

subsection \<open>Determinism\<close>

text \<open>
  Claim C9. Two runs on the same arguments and the same contents of the named file print
  the same report and end with the same status, whatever else the file system holds and
  in whatever order the runtime of either run hands out the items of the dictionary of
  groups: the rows are sorted by key and the keys of a dictionary are distinct, so the
  report is that of \<open>main\<close> in both runs.
\<close>

theorem report_independent_of_run:
  assumes "\<And>m. mset (items_of m) = mset m" and "\<And>m. mset (items_of' m) = mset m"
    and "fs (argv ! 1) = fs' (argv ! 1)"
  shows "main_ordered items_of fs argv = main_ordered items_of' fs' argv \<and>
    main_ordered items_of fs argv = main fs argv"
proof -
  have "main fs argv = main fs' argv"
    using assms(3) by (simp add: main_def parse_file_def)
  then show ?thesis
    unfolding main_ordered_eq [of items_of, OF assms(1)] main_ordered_eq [of items_of', OF assms(2)]
    by simp
qed

theorem report_independent_of_run_witness:
  "main_ordered rev groups_fs [''parse_ingest_metrics.py'', ''groups.log''] =
     main_ordered (\<lambda>m. m) groups_fs' [''parse_ingest_metrics.py'', ''groups.log''] \<and>
   main_ordered rev groups_fs [''parse_ingest_metrics.py'', ''groups.log''] =
     main groups_fs [''parse_ingest_metrics.py'', ''groups.log'']"
proof -
  have f: "groups_fs ([''parse_ingest_metrics.py'', ''groups.log''] ! 1) =
     groups_fs' ([''parse_ingest_metrics.py'', ''groups.log''] ! 1)"
    by (simp add: groups_fs_def groups_fs'_def)
  show ?thesis
    by (rule report_independent_of_run [of rev "\<lambda>m. m" groups_fs _ groups_fs', OF _ _ f])
      simp_all
qed

subsection \<open>Incomplete records\<close>

text \<open>
  Claim C8. A line that holds no complete record (the marker, the three keys and all five
  timing pairs, in order, each with an integer value) yields no row and no error, however
  much of the format it does hold: there are no partial records.
\<close>

theorem incomplete_line_skipped:
  assumes "\<not> has_complete_record line"
  shows "parse_line line = Inr None"
  using assms unfolding has_complete_record_search by (simp add: parse_line_def)

theorem incomplete_line_skipped_witness:
  "parse_line ''ingest_metrics table=orders mode=batch op=insert parse_ms=1 build_ms=2 send_ms=3 wait_lsn_ms=4'' = Inr None"
proof -
  have "search pattern ''ingest_metrics table=orders mode=batch op=insert parse_ms=1 build_ms=2 send_ms=3 wait_lsn_ms=4'' = None"
    using noise_lines_no_match by (simp add: noise_lines_def)
  then have "\<not> has_complete_record ''ingest_metrics table=orders mode=batch op=insert parse_ms=1 build_ms=2 send_ms=3 wait_lsn_ms=4''"
    unfolding has_complete_record_search by simp
  then show ?thesis
    by (rule incomplete_line_skipped)
qed

subsection \<open>Unit normalisation\<close>



subsection \<open>One record per line\<close>



end
